theory Spec2Isabelle
  imports Main "HOL-Library.Word"
begin

unbundle bit_operations_syntax

section \<open>Machine types and failures\<close>

text \<open>
  The embedding follows \<^verbatim>\<open>js/src/wasm/WasmCode.h\<close> on a 64-bit target: a pointer
  (\<^verbatim>\<open>void*\<close>, \<^verbatim>\<open>uint8_t*\<close>) and a \<^verbatim>\<open>size_t\<close> are 64-bit words, a
  \<^verbatim>\<open>uint32_t\<close> is a 32-bit word. The null pointer is the word 0. Lengths of vectors and
  indices into them are natural numbers.
\<close>

type_synonym ptr = "64 word"
type_synonym size_t = "64 word"
type_synonym uint32_t = "32 word"

text \<open>
  Every way a member function can stop without returning is a value: a failed
  \<^verbatim>\<open>MOZ_ASSERT\<close> (checked in DEBUG builds only), a failed \<^verbatim>\<open>MOZ_RELEASE_ASSERT\<close>
  (checked in every build), the crash of \<^verbatim>\<open>AutoEnterOOMUnsafeRegion\<close>, and an access
  the C++ standard leaves undefined (a null table, an index outside the allocation).
\<close>

datatype failure = DebugAssertion | ReleaseAssertion | OOMCrash | UndefinedBehaviour

definition seq :: "failure + 'a \<Rightarrow> ('a \<Rightarrow> failure + 'b) \<Rightarrow> failure + 'b" where
  "seq r f = (case r of Inl e \<Rightarrow> Inl e | Inr x \<Rightarrow> f x)"

definition MOZ_ASSERT :: "bool \<Rightarrow> bool \<Rightarrow> failure + unit" where
  "MOZ_ASSERT debug c = (if debug \<and> \<not> c then Inl DebugAssertion else Inr ())"

definition MOZ_RELEASE_ASSERT :: "bool \<Rightarrow> failure + unit" where
  "MOZ_RELEASE_ASSERT c = (if c then Inr () else Inl ReleaseAssertion)"

section \<open>JumpTables\<close>

text \<open>
  \<^verbatim>\<open>CompileMode\<close> is declared in \<^verbatim>\<open>wasm/WasmCompileArgs.h\<close>; the header under
  study names its enumerator \<^verbatim>\<open>Tier1\<close> only. A \<^verbatim>\<open>TablePointer\<close> is a unique pointer
  to a heap array of \<^verbatim>\<open>void*\<close>: \<open>None\<close> is the null table, \<open>Some t\<close> an array
  at address \<open>tbl_addr t\<close> holding the slots \<open>tbl_slots t\<close>.
\<close>

datatype CompileMode = Once | Tier1 | Tier2

record Table =
  tbl_addr :: ptr
  tbl_slots :: "ptr list"

record JumpTables =
  jt_mode :: CompileMode
  jt_tiering :: "Table option"
  jt_jit :: "Table option"
  jt_numFuncs :: size_t

definition sizeof_ptr :: "64 word" where
  "sizeof_ptr = 8"

text \<open>\<^verbatim>\<open>table.get()[i]\<close> as an rvalue and as the target of an assignment.\<close>

definition load_slot :: "Table option \<Rightarrow> size_t \<Rightarrow> failure + ptr" where
  "load_slot tbl i =
     (case tbl of
        None \<Rightarrow> Inl UndefinedBehaviour
      | Some t \<Rightarrow>
          if unat i < length (tbl_slots t) then Inr (tbl_slots t ! unat i)
          else Inl UndefinedBehaviour)"

definition store_slot :: "Table option \<Rightarrow> size_t \<Rightarrow> ptr \<Rightarrow> failure + Table option" where
  "store_slot tbl i target =
     (case tbl of
        None \<Rightarrow> Inl UndefinedBehaviour
      | Some t \<Rightarrow>
          if unat i < length (tbl_slots t)
          then Inr (Some (t\<lparr>tbl_slots := (tbl_slots t)[unat i := target]\<rparr>))
          else Inl UndefinedBehaviour)"

text \<open>\<^verbatim>\<open>&table.get()[i]\<close>: the address of slot \<open>i\<close>.\<close>

definition slot_address :: "Table option \<Rightarrow> size_t \<Rightarrow> failure + ptr" where
  "slot_address tbl i =
     (case tbl of
        None \<Rightarrow> Inl UndefinedBehaviour
      | Some t \<Rightarrow> Inr (tbl_addr t + sizeof_ptr * i))"

definition setJitEntry :: "bool \<Rightarrow> JumpTables \<Rightarrow> size_t \<Rightarrow> ptr \<Rightarrow> failure + JumpTables" where
  "setJitEntry debug jt i target =
     seq (MOZ_ASSERT debug (i < jt_numFuncs jt)) (\<lambda>_.
     seq (store_slot (jt_jit jt) i target) (\<lambda>tbl.
     Inr (jt\<lparr>jt_jit := tbl\<rparr>)))"

text \<open>
  \<^verbatim>\<open>__atomic_compare_exchange_n(&jit_.get()[i], &expected, target, ...)\<close> with
  \<^verbatim>\<open>expected = nullptr\<close>: the slot is read and, when it is null, replaced by
  \<open>target\<close> in one atomic step. The result of the exchange is discarded.
\<close>

definition setJitEntryIfNull :: "bool \<Rightarrow> JumpTables \<Rightarrow> size_t \<Rightarrow> ptr \<Rightarrow> failure + JumpTables" where
  "setJitEntryIfNull debug jt i target =
     seq (MOZ_ASSERT debug (i < jt_numFuncs jt)) (\<lambda>_.
     seq (load_slot (jt_jit jt) i) (\<lambda>current.
     if current = 0
     then seq (store_slot (jt_jit jt) i target) (\<lambda>tbl. Inr (jt\<lparr>jt_jit := tbl\<rparr>))
     else Inr jt))"

definition getAddressOfJitEntry :: "bool \<Rightarrow> JumpTables \<Rightarrow> size_t \<Rightarrow> failure + ptr" where
  "getAddressOfJitEntry debug jt i =
     seq (MOZ_ASSERT debug (i < jt_numFuncs jt)) (\<lambda>_.
     seq (if debug
          then seq (load_slot (jt_jit jt) i) (\<lambda>v. MOZ_ASSERT debug (v \<noteq> 0))
          else Inr ()) (\<lambda>_.
     slot_address (jt_jit jt) i))"

text \<open>
  \<^verbatim>\<open>(intptr_t*)target - (intptr_t*)&jit_.get()[0]\<close>: the signed distance in bytes,
  divided by the size of an \<^verbatim>\<open>intptr_t\<close>, converted to \<^verbatim>\<open>size_t\<close>. The compiled
  subtraction shifts the distance right arithmetically, so a distance that is no multiple
  of the size is rounded down (\<open>div\<close> on the integers rounds down).
\<close>

definition ptr_diff :: "ptr \<Rightarrow> ptr \<Rightarrow> size_t" where
  "ptr_diff p q = word_of_int (sint (p - q) div sint sizeof_ptr)"

definition funcIndexFromJitEntry :: "bool \<Rightarrow> JumpTables \<Rightarrow> ptr \<Rightarrow> failure + size_t" where
  "funcIndexFromJitEntry debug jt target =
     seq (slot_address (jt_jit jt) 0) (\<lambda>first.
     seq (MOZ_ASSERT debug (target \<ge> first)) (\<lambda>_.
     seq (slot_address (jt_jit jt) (jt_numFuncs jt - 1)) (\<lambda>last.
     seq (MOZ_ASSERT debug (target \<le> last)) (\<lambda>_.
     Inr (ptr_diff target first)))))"

definition setTieringEntry :: "bool \<Rightarrow> JumpTables \<Rightarrow> size_t \<Rightarrow> ptr \<Rightarrow> failure + JumpTables" where
  "setTieringEntry debug jt i target =
     seq (MOZ_ASSERT debug (i < jt_numFuncs jt)) (\<lambda>_.
     if jt_mode jt = Tier1
     then seq (store_slot (jt_tiering jt) i target) (\<lambda>tbl. Inr (jt\<lparr>jt_tiering := tbl\<rparr>))
     else Inr jt)"

text \<open>
  The member functions of \<^verbatim>\<open>JumpTables\<close> that write a table, as operations, and a
  sequence of them run in order; the run stops at the first failure.
\<close>

datatype jt_op =
    SetJitEntry size_t ptr
  | SetJitEntryIfNull size_t ptr
  | SetTieringEntry size_t ptr

fun jt_apply :: "bool \<Rightarrow> JumpTables \<Rightarrow> jt_op \<Rightarrow> failure + JumpTables" where
  "jt_apply debug jt (SetJitEntry i target) = setJitEntry debug jt i target"
| "jt_apply debug jt (SetJitEntryIfNull i target) = setJitEntryIfNull debug jt i target"
| "jt_apply debug jt (SetTieringEntry i target) = setTieringEntry debug jt i target"

fun jt_run :: "bool \<Rightarrow> JumpTables \<Rightarrow> jt_op list \<Rightarrow> failure + JumpTables" where
  "jt_run debug jt [] = Inr jt"
| "jt_run debug jt (op # ops) = seq (jt_apply debug jt op) (\<lambda>jt'. jt_run debug jt' ops)"

text \<open>
  A table is well placed when the array lies inside the address space and its size in
  bytes is at most \<^verbatim>\<open>PTRDIFF_MAX\<close>, as every C++ array object is.
\<close>

definition table_placed :: "Table \<Rightarrow> bool" where
  "table_placed t \<longleftrightarrow>
     unat (tbl_addr t) + 8 * length (tbl_slots t) \<le> 2 ^ 64 \<and>
     8 * length (tbl_slots t) < 2 ^ 63"

definition example_tables :: JumpTables where
  "example_tables =
     \<lparr>jt_mode = Once,
      jt_tiering = None,
      jt_jit = Some \<lparr>tbl_addr = 4096, tbl_slots = [5, 0, 7]\<rparr>,
      jt_numFuncs = 3\<rparr>"

section \<open>CodeSegment\<close>

text \<open>
  A \<^verbatim>\<open>CodeSegment\<close> owns the executable bytes at address \<open>seg_bytes\<close>; of its
  \<open>seg_capacityBytes\<close> bytes the first \<open>seg_lengthBytes\<close> are in use. The back
  pointer \<^verbatim>\<open>code_\<close> plays no part in the allocator and is left out.
\<close>

record CodeSegment =
  seg_bytes :: ptr
  seg_lengthBytes :: uint32_t
  seg_capacityBytes :: uint32_t

definition UINT32_MAX :: uint32_t where
  "UINT32_MAX = - 1"

definition base :: "CodeSegment \<Rightarrow> ptr" where
  "base seg = seg_bytes seg"

definition lengthBytes :: "bool \<Rightarrow> CodeSegment \<Rightarrow> failure + uint32_t" where
  "lengthBytes debug seg =
     seq (MOZ_ASSERT debug (seg_lengthBytes seg \<noteq> UINT32_MAX)) (\<lambda>_. Inr (seg_lengthBytes seg))"

definition capacityBytes :: "bool \<Rightarrow> CodeSegment \<Rightarrow> failure + uint32_t" where
  "capacityBytes debug seg =
     seq (MOZ_ASSERT debug (seg_capacityBytes seg \<noteq> UINT32_MAX)) (\<lambda>_. Inr (seg_capacityBytes seg))"

text \<open>
  \<^verbatim>\<open>AlignBytesNeeded\<close> rounds up to the system page size with \<^verbatim>\<open>AlignBytes\<close> and
  \<^verbatim>\<open>gc::SystemPageSize()\<close>, both declared outside the header; the rounding function is
  the parameter \<open>align\<close>. In \<^verbatim>\<open>hasSpace\<close> the \<^verbatim>\<open>uint32_t\<close> operands are
  converted to \<^verbatim>\<open>size_t\<close> before the comparison and the subtraction, and
  \<^verbatim>\<open>&&\<close> evaluates its right operand only when the left one holds.
\<close>

definition hasSpace :: "bool \<Rightarrow> (size_t \<Rightarrow> size_t) \<Rightarrow> CodeSegment \<Rightarrow> size_t \<Rightarrow> failure + bool" where
  "hasSpace debug align seg bytes =
     seq (MOZ_ASSERT debug (align bytes = bytes)) (\<lambda>_.
     seq (capacityBytes debug seg) (\<lambda>cap.
     if bytes \<le> ucast cap
     then seq (capacityBytes debug seg) (\<lambda>cap'.
          Inr (ucast (seg_lengthBytes seg) \<le> ucast cap' - bytes))
     else Inr False))"

text \<open>
  \<^verbatim>\<open>claimSpace\<close> returns the claimed base through its out-parameter and adds
  \<open>bytes\<close> to \<^verbatim>\<open>lengthBytes_\<close>; the sum is computed in \<^verbatim>\<open>size_t\<close> and converted
  back to \<^verbatim>\<open>uint32_t\<close>.
\<close>

definition claimSpace ::
  "bool \<Rightarrow> (size_t \<Rightarrow> size_t) \<Rightarrow> CodeSegment \<Rightarrow> size_t \<Rightarrow> failure + ptr \<times> CodeSegment" where
  "claimSpace debug align seg bytes =
     seq (hasSpace debug align seg bytes) (\<lambda>ok.
     seq (MOZ_RELEASE_ASSERT ok) (\<lambda>_.
     Inr (base seg + ucast (seg_lengthBytes seg),
          seg\<lparr>seg_lengthBytes := ucast (ucast (seg_lengthBytes seg) + bytes :: size_t)\<rparr>)))"

text \<open>A sequence of claims on one segment, with the sub-range each claim returns.\<close>

fun claimSpaces ::
  "bool \<Rightarrow> (size_t \<Rightarrow> size_t) \<Rightarrow> CodeSegment \<Rightarrow> size_t list \<Rightarrow>
   failure + CodeSegment \<times> (ptr \<times> size_t) list" where
  "claimSpaces debug align seg [] = Inr (seg, [])"
| "claimSpaces debug align seg (n # ns) =
     seq (claimSpace debug align seg n) (\<lambda>(p, seg').
     seq (claimSpaces debug align seg' ns) (\<lambda>(seg'', rs).
     Inr (seg'', (p, n) # rs)))"

text \<open>
  The segment's buffer lies inside the address space. A claimed range \<open>(p, n)\<close> covers
  the addresses from \<open>p\<close> up to, not including, \<open>p + n\<close>.
\<close>

definition segment_placed :: "CodeSegment \<Rightarrow> bool" where
  "segment_placed seg \<longleftrightarrow> unat (seg_bytes seg) + unat (seg_capacityBytes seg) < 2 ^ 64"

definition range_before :: "ptr \<times> size_t \<Rightarrow> ptr \<times> size_t \<Rightarrow> bool" where
  "range_before r s \<longleftrightarrow> unat (fst r) + unat (snd r) \<le> unat (fst s)"

definition range_inside :: "CodeSegment \<Rightarrow> ptr \<times> size_t \<Rightarrow> bool" where
  "range_inside seg r \<longleftrightarrow>
     unat (seg_bytes seg) \<le> unat (fst r) \<and>
     unat (fst r) + unat (snd r) \<le> unat (seg_bytes seg) + unat (seg_capacityBytes seg)"

definition example_segment :: CodeSegment where
  "example_segment = \<lparr>seg_bytes = 65536, seg_lengthBytes = 4096, seg_capacityBytes = 16384\<rparr>"

definition example_align :: "size_t \<Rightarrow> size_t" where
  "example_align bytes = bytes + (4096 - bytes mod 4096) mod 4096"

section \<open>FuncToCodeRangeMap\<close>

definition BAD_CODE_RANGE :: uint32_t where
  "BAD_CODE_RANGE = UINT32_MAX"

record FuncToCodeRangeMap =
  startFuncIndex :: uint32_t
  funcToCodeRange :: "uint32_t list"


text \<open>
  \<^verbatim>\<open>createDense\<close> returns false when \<^verbatim>\<open>appendN\<close> cannot allocate (\<open>oom\<close>), the
  result \<open>None\<close>; otherwise every slot of the new map holds the sentinel.
\<close>

definition createDense :: "bool \<Rightarrow> uint32_t \<Rightarrow> uint32_t \<Rightarrow> FuncToCodeRangeMap option" where
  "createDense oom start numFuncs =
     (if oom then None
      else Some \<lparr>startFuncIndex = start,
                 funcToCodeRange = replicate (unat numFuncs) BAD_CODE_RANGE\<rparr>)"




text \<open>
  The loop of \<^verbatim>\<open>assertAllInitialized\<close> stands between \<^verbatim>\<open>#ifdef DEBUG\<close> and
  \<^verbatim>\<open>#endif\<close>: a build without DEBUG compiles the function to an empty body.
\<close>

fun assertEach :: "bool \<Rightarrow> uint32_t list \<Rightarrow> failure + unit" where
  "assertEach debug [] = Inr ()"
| "assertEach debug (codeRangeIndex # rest) =
     seq (MOZ_ASSERT debug (codeRangeIndex \<noteq> BAD_CODE_RANGE)) (\<lambda>_. assertEach debug rest)"

definition assertAllInitialized :: "bool \<Rightarrow> FuncToCodeRangeMap \<Rightarrow> failure + unit" where
  "assertAllInitialized debug m =
     (if debug then assertEach debug (funcToCodeRange m) else Inr ())"

definition numEntries :: "FuncToCodeRangeMap \<Rightarrow> nat" where
  "numEntries m = length (funcToCodeRange m)"

section \<open>CodeBlock\<close>

text \<open>
  Modelled from the spec: \<^verbatim>\<open>CodeRange\<close> is declared in
  \<^verbatim>\<open>wasm/WasmCodegenTypes.h\<close>, which is not part of the sources at hand. The spec
  keeps code ranges as address ranges inside the segment, sorted by address; a range is
  its begin and end offset from the segment base.
\<close>

record CodeRange =
  cr_begin :: uint32_t
  cr_end :: uint32_t

datatype CodeBlockKind = SharedStubs | BaselineTier | OptimizedTier | LazyStubs

text \<open>
  Of the members of \<^verbatim>\<open>CodeBlock\<close> the record keeps the weak reference to the owning
  \<^verbatim>\<open>Code\<close> (a pointer, null before \<^verbatim>\<open>initialize\<close>), the kind, the sub-range of the
  segment, the function-to-code-range map and the code ranges. Call sites, trap sites,
  exports, stack maps, try notes and unwind information do not enter any operation
  modelled here.
\<close>

record CodeBlock =
  cb_code :: ptr
  cb_kind :: CodeBlockKind
  cb_codeBase :: ptr
  cb_codeLength :: size_t
  cb_funcToCodeRange :: FuncToCodeRangeMap
  cb_codeRanges :: "CodeRange list"
  cb_unregisterOnDestroy :: bool

definition initialized :: "CodeBlock \<Rightarrow> bool" where
  "initialized cb \<longleftrightarrow> cb_code cb \<noteq> 0"

definition CodeBlock_base :: "CodeBlock \<Rightarrow> ptr" where
  "CodeBlock_base cb = cb_codeBase cb"

text \<open>\<^verbatim>\<open>length()\<close> returns the \<^verbatim>\<open>size_t\<close> member as a \<^verbatim>\<open>uint32_t\<close>.\<close>

definition CodeBlock_length :: "CodeBlock \<Rightarrow> uint32_t" where
  "CodeBlock_length cb = ucast (cb_codeLength cb)"

definition containsCodePC :: "CodeBlock \<Rightarrow> ptr \<Rightarrow> bool" where
  "containsCodePC cb pc \<longleftrightarrow>
     pc \<ge> CodeBlock_base cb \<and> pc < CodeBlock_base cb + ucast (CodeBlock_length cb)"




section \<open>ThreadSafeCodeBlockMap\<close>

text \<open>
  Modelled from the spec: \<^verbatim>\<open>mozilla::BinarySearchIf\<close> (\<^verbatim>\<open>mfbt/BinarySearch.h\<close>) and
  \<^verbatim>\<open>mozilla::Vector\<close> (\<^verbatim>\<open>mfbt/Vector.h\<close>) are not part of the sources at hand. The
  spec has the map binary-search its array for the range containing a program counter.
  The search halves the range \<open>[low, high)\<close>; the comparator answers 0 on a match,
  a negative number when the target lies before the element and a positive one when it
  lies after. It returns whether a match was found, with the index of the match or else
  the insertion point. The callers pass \<open>low = 0\<close> and \<open>high\<close> the length, and
  the loop keeps \<open>low \<le> high\<close>: it runs while \<open>low < high\<close>.
\<close>

function BinarySearchIf :: "'a list \<Rightarrow> nat \<Rightarrow> nat \<Rightarrow> ('a \<Rightarrow> int) \<Rightarrow> bool \<times> nat" where
  "BinarySearchIf container low high compare =
     (if low < high then
        (let middle = low + (high - low) div 2;
             result = compare (container ! middle)
         in if result = 0 then (True, middle)
            else if result < 0 then BinarySearchIf container low middle compare
            else BinarySearchIf container (middle + 1) high compare)
      else (False, low))"
  by pat_completeness auto
termination
  by (relation "measure (\<lambda>(container, low, high, compare). high - low)") auto

text \<open>
  \<^verbatim>\<open>Vector::insert\<close> fails without changing the vector when it cannot allocate
  (\<open>oom\<close>); \<^verbatim>\<open>Vector::erase\<close> needs a position inside the vector.
\<close>

definition Vector_insert :: "'a list \<Rightarrow> nat \<Rightarrow> 'a \<Rightarrow> bool \<Rightarrow> failure + 'a list option" where
  "Vector_insert v index x oom =
     (if index > length v then Inl UndefinedBehaviour
      else if oom then Inr None
      else Inr (Some (take index v @ x # drop index v)))"

definition Vector_erase :: "'a list \<Rightarrow> nat \<Rightarrow> failure + 'a list" where
  "Vector_erase v index =
     (if index < length v then Inr (take index v @ drop (Suc index) v)
      else Inl UndefinedBehaviour)"

text \<open>
  The map owns two vectors of code blocks. \<^verbatim>\<open>mutableCodeBlocks_\<close> and
  \<^verbatim>\<open>readonlyCodeBlocks_\<close> each point to one of them. The vectors hold pointers to
  immutable code blocks; the model holds the blocks. The mutex is held or free.
\<close>

datatype vector_ref = Segments1 | Segments2

record ThreadSafeCodeBlockMap =
  mutatorsMutex :: bool
  segments1 :: "CodeBlock list"
  segments2 :: "CodeBlock list"
  mutableCodeBlocks :: vector_ref
  readonlyCodeBlocks :: vector_ref
  numActiveLookups :: size_t

definition deref :: "ThreadSafeCodeBlockMap \<Rightarrow> vector_ref \<Rightarrow> CodeBlock list" where
  "deref m r = (case r of Segments1 \<Rightarrow> segments1 m | Segments2 \<Rightarrow> segments2 m)"

definition assign ::
  "ThreadSafeCodeBlockMap \<Rightarrow> vector_ref \<Rightarrow> CodeBlock list \<Rightarrow> ThreadSafeCodeBlockMap" where
  "assign m r v = (case r of Segments1 \<Rightarrow> m\<lparr>segments1 := v\<rparr> | Segments2 \<Rightarrow> m\<lparr>segments2 := v\<rparr>)"

definition new_map :: ThreadSafeCodeBlockMap where
  "new_map =
     \<lparr>mutatorsMutex = False, segments1 = [], segments2 = [],
      mutableCodeBlocks = Segments1, readonlyCodeBlocks = Segments2, numActiveLookups = 0\<rparr>"

definition CodeBlockPC :: "ptr \<Rightarrow> CodeBlock \<Rightarrow> int" where
  "CodeBlockPC pc cb =
     (if containsCodePC cb pc then 0
      else if pc < CodeBlock_base cb then - 1
      else 1)"

text \<open>
  A \<^verbatim>\<open>LockGuard\<close> takes the mutex at its declaration and frees it when the function
  returns. Taking a mutex that is held does not return: the result \<open>None\<close>.
\<close>

definition lock :: "ThreadSafeCodeBlockMap \<Rightarrow> ThreadSafeCodeBlockMap option" where
  "lock m = (if mutatorsMutex m then None else Some (m\<lparr>mutatorsMutex := True\<rparr>))"

definition unlock :: "ThreadSafeCodeBlockMap \<Rightarrow> ThreadSafeCodeBlockMap" where
  "unlock m = m\<lparr>mutatorsMutex := False\<rparr>"

text \<open>
  \<^verbatim>\<open>swapAndWait\<close> exchanges the two pointers and then spins while a lookup is active.
  No step of the writer changes the counter, so the loop, run on its own, ends exactly
  when the counter is zero; a loop that never ends has the result \<open>None\<close>.
\<close>

definition exchange :: "ThreadSafeCodeBlockMap \<Rightarrow> ThreadSafeCodeBlockMap" where
  "exchange m = m\<lparr>mutableCodeBlocks := readonlyCodeBlocks m,
                  readonlyCodeBlocks := mutableCodeBlocks m\<rparr>"

partial_function (option) wait_for_lookups ::
  "ThreadSafeCodeBlockMap \<Rightarrow> ThreadSafeCodeBlockMap option" where
  "wait_for_lookups m = (if numActiveLookups m > 0 then wait_for_lookups m else Some m)"

definition swapAndWait :: "ThreadSafeCodeBlockMap \<Rightarrow> ThreadSafeCodeBlockMap option" where
  "swapAndWait m = wait_for_lookups (exchange m)"

text \<open>
  \<^verbatim>\<open>insert\<close> in three parts: the search and the insertion into the private vector,
  \<^verbatim>\<open>swapAndWait\<close>, and (after the DEBUG re-check of the index) the same insertion into
  the vector that has become private. \<^verbatim>\<open>MOZ_ALWAYS_FALSE(e)\<close> evaluates \<open>e\<close> in
  every build and asserts its negation in DEBUG builds. \<open>oom1\<close> and \<open>oom2\<close> tell
  whether the first and the second insertion fail to allocate.
\<close>

definition insert_private ::
  "bool \<Rightarrow> bool \<Rightarrow> ThreadSafeCodeBlockMap \<Rightarrow> CodeBlock \<Rightarrow>
   failure + (nat \<times> ThreadSafeCodeBlockMap) option" where
  "insert_private debug oom1 m cs =
     (let v = deref m (mutableCodeBlocks m);
          (found, index) = BinarySearchIf v 0 (length v) (CodeBlockPC (CodeBlock_base cs))
      in seq (MOZ_ASSERT debug (\<not> found)) (\<lambda>_.
         seq (Vector_insert v index cs oom1) (\<lambda>r.
         case r of
           None \<Rightarrow> Inr None
         | Some v' \<Rightarrow> Inr (Some (index, assign m (mutableCodeBlocks m) v')))))"

definition insert_other ::
  "bool \<Rightarrow> bool \<Rightarrow> ThreadSafeCodeBlockMap \<Rightarrow> CodeBlock \<Rightarrow> nat \<Rightarrow>
   failure + ThreadSafeCodeBlockMap" where
  "insert_other debug oom2 m cs index =
     (let v = deref m (mutableCodeBlocks m)
      in seq (if debug
              then (let (found, otherIndex) =
                          BinarySearchIf v 0 (length v) (CodeBlockPC (CodeBlock_base cs))
                    in seq (MOZ_ASSERT debug (\<not> found)) (\<lambda>_.
                       MOZ_ASSERT debug (index = otherIndex)))
              else Inr ()) (\<lambda>_.
         seq (Vector_insert v index cs oom2) (\<lambda>r.
         case r of
           None \<Rightarrow> Inl OOMCrash
         | Some v' \<Rightarrow> Inr (assign m (mutableCodeBlocks m) v'))))"

definition CodeBlockMap_insert ::
  "bool \<Rightarrow> bool \<Rightarrow> bool \<Rightarrow> ThreadSafeCodeBlockMap \<Rightarrow> CodeBlock \<Rightarrow>
   (failure + bool \<times> ThreadSafeCodeBlockMap) option" where
  "CodeBlockMap_insert debug oom1 oom2 m cs =
     Option.bind (lock m) (\<lambda>m0.
       case insert_private debug oom1 m0 cs of
         Inl e \<Rightarrow> Some (Inl e)
       | Inr None \<Rightarrow> Some (Inr (False, unlock m0))
       | Inr (Some (index, m1)) \<Rightarrow>
           Option.bind (swapAndWait m1) (\<lambda>m2.
             Some (seq (insert_other debug oom2 m2 cs index) (\<lambda>m3.
                   Inr (True, unlock m3)))))"

text \<open>\<^verbatim>\<open>remove\<close>, in the same three parts; it returns the new number of blocks.\<close>

definition remove_private ::
  "bool \<Rightarrow> ThreadSafeCodeBlockMap \<Rightarrow> CodeBlock \<Rightarrow>
   failure + nat \<times> nat \<times> ThreadSafeCodeBlockMap" where
  "remove_private debug m cs =
     (let v = deref m (mutableCodeBlocks m);
          (found, index) = BinarySearchIf v 0 (length v) (CodeBlockPC (CodeBlock_base cs))
      in seq (MOZ_ASSERT debug found) (\<lambda>_.
         seq (Vector_erase v index) (\<lambda>v'.
         Inr (index, length v', assign m (mutableCodeBlocks m) v'))))"

definition remove_other ::
  "bool \<Rightarrow> ThreadSafeCodeBlockMap \<Rightarrow> CodeBlock \<Rightarrow> nat \<Rightarrow> failure + ThreadSafeCodeBlockMap" where
  "remove_other debug m cs index =
     (let v = deref m (mutableCodeBlocks m)
      in seq (if debug
              then (let (found, otherIndex) =
                          BinarySearchIf v 0 (length v) (CodeBlockPC (CodeBlock_base cs))
                    in seq (MOZ_ASSERT debug found) (\<lambda>_.
                       MOZ_ASSERT debug (index = otherIndex)))
              else Inr ()) (\<lambda>_.
         seq (Vector_erase v index) (\<lambda>v'.
         Inr (assign m (mutableCodeBlocks m) v'))))"

definition CodeBlockMap_remove ::
  "bool \<Rightarrow> ThreadSafeCodeBlockMap \<Rightarrow> CodeBlock \<Rightarrow>
   (failure + nat \<times> ThreadSafeCodeBlockMap) option" where
  "CodeBlockMap_remove debug m cs =
     Option.bind (lock m) (\<lambda>m0.
       case remove_private debug m0 cs of
         Inl e \<Rightarrow> Some (Inl e)
       | Inr (index, newCodeBlockCount, m1) \<Rightarrow>
           Option.bind (swapAndWait m1) (\<lambda>m2.
             Some (seq (remove_other debug m2 cs index) (\<lambda>m3.
                   Inr (newCodeBlockCount, unlock m3)))))"

text \<open>
  \<^verbatim>\<open>lookup\<close> counts itself in, reads the published pointer, searches the vector it
  points to, and counts itself out on every path (the scope guard \<^verbatim>\<open>decObserver\<close>).
  \<^verbatim>\<open>CodeBlock::lookupRange\<close> is defined in \<^verbatim>\<open>WasmCode.cpp\<close> and is the parameter
  \<open>lookupRange\<close>. The optional out-parameter \<^verbatim>\<open>codeRange\<close> is \<open>None\<close> when the
  caller passes a null pointer, \<open>Some c\<close> when it points to the value \<open>c\<close> (itself
  null, \<open>None\<close>, or a code range); the function returns its value after the call.
\<close>

definition decObserver :: "bool \<Rightarrow> ThreadSafeCodeBlockMap \<Rightarrow> failure + ThreadSafeCodeBlockMap" where
  "decObserver debug m =
     seq (MOZ_ASSERT debug (numActiveLookups m > 0)) (\<lambda>_.
     Inr (m\<lparr>numActiveLookups := numActiveLookups m - 1\<rparr>))"

definition CodeBlockMap_lookup ::
  "bool \<Rightarrow> (CodeBlock \<Rightarrow> ptr \<Rightarrow> CodeRange option) \<Rightarrow> ThreadSafeCodeBlockMap \<Rightarrow> ptr \<Rightarrow>
   CodeRange option option \<Rightarrow>
   failure + CodeBlock option \<times> CodeRange option option \<times> ThreadSafeCodeBlockMap" where
  "CodeBlockMap_lookup debug lookupRange m pc codeRange =
     (let m1 = m\<lparr>numActiveLookups := numActiveLookups m + 1\<rparr>;
          readonly = deref m1 (readonlyCodeBlocks m1);
          (found, index) = BinarySearchIf readonly 0 (length readonly) (CodeBlockPC pc);
          (result, out) =
             (if \<not> found then (None, map_option (\<lambda>_. None) codeRange)
              else (Some (readonly ! index),
                    map_option (\<lambda>_. lookupRange (readonly ! index) pc) codeRange))
      in seq (decObserver debug m1) (\<lambda>m2. Inr (result, out, m2)))"

text \<open>
  Addresses of a block as natural numbers. A block is placed when its range lies inside
  the address space, so that \<open>base + length\<close> does not wrap around. A list of blocks is
  in order when every block ends at or before the base of each block after it: the list
  is sorted by base address and its ranges do not overlap.
\<close>

definition block_start :: "CodeBlock \<Rightarrow> nat" where
  "block_start cb = unat (CodeBlock_base cb)"

definition block_end :: "CodeBlock \<Rightarrow> nat" where
  "block_end cb = unat (CodeBlock_base cb) + unat (CodeBlock_length cb)"

definition block_placed :: "CodeBlock \<Rightarrow> bool" where
  "block_placed cb \<longleftrightarrow> block_end cb < 2 ^ 64"

definition blocks_in_order :: "CodeBlock list \<Rightarrow> bool" where
  "blocks_in_order v \<longleftrightarrow>
     sorted_wrt (\<lambda>a b. block_end a \<le> block_start b) v \<and> (\<forall>cb \<in> set v. block_placed cb)"

text \<open>Two blocks are apart when one of them ends at or before the base of the other.\<close>

definition apart :: "CodeBlock \<Rightarrow> CodeBlock \<Rightarrow> bool" where
  "apart a b \<longleftrightarrow> block_end a \<le> block_start b \<or> block_end b \<le> block_start a"

definition mk_block :: "ptr \<Rightarrow> size_t \<Rightarrow> CodeBlock" where
  "mk_block b len =
     \<lparr>cb_code = 0, cb_kind = BaselineTier, cb_codeBase = b, cb_codeLength = len,
      cb_funcToCodeRange = \<lparr>startFuncIndex = 0, funcToCodeRange = []\<rparr>,
      cb_codeRanges = [], cb_unregisterOnDestroy = False\<rparr>"

text \<open>
  The vector a lookup reads, and the agreement of the two vectors between operations:
  they hold the same blocks, and the two pointers point to different vectors.
\<close>

definition visible :: "ThreadSafeCodeBlockMap \<Rightarrow> CodeBlock list" where
  "visible m = deref m (readonlyCodeBlocks m)"

definition arrays_agree :: "ThreadSafeCodeBlockMap \<Rightarrow> bool" where
  "arrays_agree m \<longleftrightarrow>
     segments1 m = segments2 m \<and> mutableCodeBlocks m \<noteq> readonlyCodeBlocks m"

text \<open>
  Three blocks of length \<^verbatim>\<open>0x500\<close> at \<^verbatim>\<open>0x1000\<close>, \<^verbatim>\<open>0x2000\<close> and
  \<^verbatim>\<open>0x3000\<close>, and a block from \<^verbatim>\<open>0x1000\<close> to \<^verbatim>\<open>0x3000\<close> that covers
  the second one; a map that holds the three blocks, the map after the second block is
  inserted into a new map, and that map after the first or the covering block is inserted.
\<close>

definition block_a :: CodeBlock where
  "block_a = mk_block 4096 1280"

definition block_b :: CodeBlock where
  "block_b = mk_block 8192 1280"

definition block_c :: CodeBlock where
  "block_c = mk_block 12288 1280"

definition block_wide :: CodeBlock where
  "block_wide = mk_block 4096 8192"

definition example_map :: ThreadSafeCodeBlockMap where
  "example_map =
     \<lparr>mutatorsMutex = False,
      segments1 = [block_a, block_b, block_c], segments2 = [block_a, block_b, block_c],
      mutableCodeBlocks = Segments2, readonlyCodeBlocks = Segments1, numActiveLookups = 0\<rparr>"

definition one_block_map :: ThreadSafeCodeBlockMap where
  "one_block_map =
     \<lparr>mutatorsMutex = False, segments1 = [block_b], segments2 = [block_b],
      mutableCodeBlocks = Segments2, readonlyCodeBlocks = Segments1, numActiveLookups = 0\<rparr>"

definition two_block_map :: ThreadSafeCodeBlockMap where
  "two_block_map =
     \<lparr>mutatorsMutex = False, segments1 = [block_a, block_b], segments2 = [block_a, block_b],
      mutableCodeBlocks = Segments1, readonlyCodeBlocks = Segments2, numActiveLookups = 0\<rparr>"

definition overlapping_map :: ThreadSafeCodeBlockMap where
  "overlapping_map =
     \<lparr>mutatorsMutex = False,
      segments1 = [block_wide, block_b], segments2 = [block_wide, block_b],
      mutableCodeBlocks = Segments1, readonlyCodeBlocks = Segments2, numActiveLookups = 0\<rparr>"

definition example_lookupRange :: "CodeBlock \<Rightarrow> ptr \<Rightarrow> CodeRange option" where
  "example_lookupRange cb pc = Some \<lparr>cr_begin = 0, cr_end = CodeBlock_length cb\<rparr>"



section \<open>Code: the tier-2 pair\<close>

text \<open>
  Modelled from the spec: the functions that write \<^verbatim>\<open>tier2_\<close> and \<^verbatim>\<open>hasTier2_\<close>
  (\<^verbatim>\<open>Code::finishCompleteTier2\<close> among them) are defined in \<^verbatim>\<open>wasm/WasmCode.cpp\<close>,
  which is not part of the sources at hand; the header declares the two members and
  documents their protocol. The spec (4.5) gives the pair exactly three observable states:
  Absent (\<open>hasTier2_ = false\<close>, \<open>tier2_ = null\<close>), Building (\<open>hasTier2_ = false\<close>,
  \<open>tier2_\<close> non-null) and Published (\<open>hasTier2_ = true\<close>), with the transitions
  Absent to Building (the installing thread stores a block in \<open>tier2_\<close>) and Building
  to Published (a single store of true to \<open>hasTier2_\<close>), and no other transition.
\<close>

record Tier2 =
  tier2 :: ptr
  hasTier2 :: bool

datatype tier2_phase = Absent | Building | Published

definition new_tier2 :: Tier2 where
  "new_tier2 = \<lparr>tier2 = 0, hasTier2 = False\<rparr>"

text \<open>The state with \<open>hasTier2_\<close> true and \<open>tier2_\<close> null is none of the three.\<close>

definition phase_of :: "Tier2 \<Rightarrow> tier2_phase option" where
  "phase_of s =
     (if hasTier2 s then (if tier2 s = 0 then None else Some Published)
      else if tier2 s = 0 then Some Absent else Some Building)"

fun phase_rank :: "tier2_phase \<Rightarrow> nat" where
  "phase_rank Absent = 0"
| "phase_rank Building = 1"
| "phase_rank Published = 2"

datatype tier2_write = InstallTier2 ptr | PublishTier2

text \<open>A write the protocol has no transition for has the result \<open>None\<close>.\<close>

fun tier2_step :: "Tier2 \<Rightarrow> tier2_write \<Rightarrow> Tier2 option" where
  "tier2_step s (InstallTier2 block) =
     (if \<not> hasTier2 s \<and> tier2 s = 0 \<and> block \<noteq> 0 then Some (s\<lparr>tier2 := block\<rparr>) else None)"
| "tier2_step s PublishTier2 =
     (if \<not> hasTier2 s \<and> tier2 s \<noteq> 0 then Some (s\<lparr>hasTier2 := True\<rparr>) else None)"

text \<open>The states a sequence of writes passes through, the first one included.\<close>

fun tier2_trace :: "Tier2 \<Rightarrow> tier2_write list \<Rightarrow> Tier2 list option" where
  "tier2_trace s [] = Some [s]"
| "tier2_trace s (w # ws) =
     (case tier2_step s w of
        None \<Rightarrow> None
      | Some s' \<Rightarrow> map_option (\<lambda>tr. s # tr) (tier2_trace s' ws))"

text \<open>How often \<open>hasTier2_\<close> changes along a list of states.\<close>

fun hasTier2_changes :: "Tier2 list \<Rightarrow> nat" where
  "hasTier2_changes (s # s' # tr) =
     (if hasTier2 s \<noteq> hasTier2 s' then 1 else 0) + hasTier2_changes (s' # tr)"
| "hasTier2_changes tr = 0"

section \<open>Static linking\<close>

text \<open>
  \<^verbatim>\<open>LinkData\<close> as the header declares it, in a build without
  \<^verbatim>\<open>JS_CODELABEL_LINKMODE\<close>. \<^verbatim>\<open>SymbolicAddress\<close> is declared in
  \<^verbatim>\<open>wasm/WasmBuiltins.h\<close>; its enumerators are numbered from 0 and the enumerated
  array \<^verbatim>\<open>symbolicLinks\<close> is the list of its vectors in that order.
\<close>

record InternalLink =
  patchAtOffset :: uint32_t
  targetOffset :: uint32_t

record LinkData =
  trapOffset :: uint32_t
  internalLinks :: "InternalLink list"
  symbolicLinks :: "uint32_t list list"

text \<open>
  Modelled from the spec: \<^verbatim>\<open>StaticallyLink\<close> and \<^verbatim>\<open>StaticallyUnlink\<close> are defined in
  \<^verbatim>\<open>wasm/WasmCode.cpp\<close>, which is not part of the sources at hand; the header declares
  them. The spec (4.1): \<^emph>\<open>every internal-link offset is patched to point at base +
  targetOffset; every symbolic-link offset is patched to the absolute address of the named
  runtime symbol. Unlinking reverses this for serialization (patches become
  segment-relative placeholders again)\<close>; an unrecognized symbolic target makes linking
  fail (7). The code buffer is a store of bytes indexed by the offset from \<open>base\<close>. A
  patch writes the eight bytes of a pointer. The resolution of symbols
  (\<open>symbolTarget\<close>) and the placeholder an unlinked symbolic patch holds
  (\<open>placeholder\<close>), which the spec does not give, are parameters; the placeholder of
  an internal link is its segment-relative target offset.
\<close>

type_synonym code_buffer = "nat \<Rightarrow> 8 word"

definition ptr_bytes :: "ptr \<Rightarrow> 8 word list" where
  "ptr_bytes p = map (\<lambda>k. ucast (drop_bit (8 * k) p)) [0 ..< 8]"

definition write_bytes :: "code_buffer \<Rightarrow> nat \<Rightarrow> 8 word list \<Rightarrow> code_buffer" where
  "write_bytes buf at bs =
     (\<lambda>a. if at \<le> a \<and> a < at + length bs then bs ! (a - at) else buf a)"

definition read_bytes :: "code_buffer \<Rightarrow> nat \<Rightarrow> nat \<Rightarrow> 8 word list" where
  "read_bytes buf at n = map buf [at ..< at + n]"

definition patch :: "code_buffer \<Rightarrow> uint32_t \<Rightarrow> ptr \<Rightarrow> code_buffer" where
  "patch buf offset p = write_bytes buf (unat offset) (ptr_bytes p)"

fun link_internal :: "ptr \<Rightarrow> InternalLink list \<Rightarrow> code_buffer \<Rightarrow> code_buffer" where
  "link_internal base_addr [] buf = buf"
| "link_internal base_addr (l # ls) buf =
     link_internal base_addr ls (patch buf (patchAtOffset l) (base_addr + ucast (targetOffset l)))"

fun patch_all :: "ptr \<Rightarrow> uint32_t list \<Rightarrow> code_buffer \<Rightarrow> code_buffer" where
  "patch_all p [] buf = buf"
| "patch_all p (offset # offsets) buf = patch_all p offsets (patch buf offset p)"

fun link_symbolic ::
  "(nat \<Rightarrow> ptr option) \<Rightarrow> nat \<Rightarrow> uint32_t list list \<Rightarrow> code_buffer \<Rightarrow> bool \<times> code_buffer" where
  "link_symbolic symbolTarget imm [] buf = (True, buf)"
| "link_symbolic symbolTarget imm (offsets # rest) buf =
     (case symbolTarget imm of
        None \<Rightarrow> (False, buf)
      | Some p \<Rightarrow> link_symbolic symbolTarget (Suc imm) rest (patch_all p offsets buf))"

definition StaticallyLink ::
  "(nat \<Rightarrow> ptr option) \<Rightarrow> ptr \<Rightarrow> code_buffer \<Rightarrow> LinkData \<Rightarrow> bool \<times> code_buffer" where
  "StaticallyLink symbolTarget base_addr buf linkData =
     link_symbolic symbolTarget 0 (symbolicLinks linkData)
       (link_internal base_addr (internalLinks linkData) buf)"

fun unlink_internal :: "InternalLink list \<Rightarrow> code_buffer \<Rightarrow> code_buffer" where
  "unlink_internal [] buf = buf"
| "unlink_internal (l # ls) buf =
     unlink_internal ls (patch buf (patchAtOffset l) (ucast (targetOffset l)))"

fun unlink_symbolic ::
  "(nat \<Rightarrow> ptr) \<Rightarrow> nat \<Rightarrow> uint32_t list list \<Rightarrow> code_buffer \<Rightarrow> code_buffer" where
  "unlink_symbolic placeholder imm [] buf = buf"
| "unlink_symbolic placeholder imm (offsets # rest) buf =
     unlink_symbolic placeholder (Suc imm) rest (patch_all (placeholder imm) offsets buf)"

definition StaticallyUnlink :: "(nat \<Rightarrow> ptr) \<Rightarrow> ptr \<Rightarrow> code_buffer \<Rightarrow> LinkData \<Rightarrow> code_buffer" where
  "StaticallyUnlink placeholder base_addr buf linkData =
     unlink_symbolic placeholder 0 (symbolicLinks linkData)
       (unlink_internal (internalLinks linkData) buf)"

text \<open>
  The patch sites of a \<^verbatim>\<open>LinkData\<close> with the value each holds in unlinked code, and
  the buffers in unlinked form: every patch site holds its placeholder.
\<close>

fun symbolic_sites :: "(nat \<Rightarrow> ptr) \<Rightarrow> nat \<Rightarrow> uint32_t list list \<Rightarrow> (uint32_t \<times> ptr) list" where
  "symbolic_sites placeholder imm [] = []"
| "symbolic_sites placeholder imm (offsets # rest) =
     map (\<lambda>offset. (offset, placeholder imm)) offsets @
     symbolic_sites placeholder (Suc imm) rest"

definition unlinked_sites :: "(nat \<Rightarrow> ptr) \<Rightarrow> LinkData \<Rightarrow> (uint32_t \<times> ptr) list" where
  "unlinked_sites placeholder linkData =
     map (\<lambda>l. (patchAtOffset l, ucast (targetOffset l))) (internalLinks linkData) @
     symbolic_sites placeholder 0 (symbolicLinks linkData)"

definition unlinked_form :: "(nat \<Rightarrow> ptr) \<Rightarrow> LinkData \<Rightarrow> code_buffer \<Rightarrow> bool" where
  "unlinked_form placeholder linkData buf \<longleftrightarrow>
     list_all (\<lambda>(offset, p). read_bytes buf (unat offset) 8 = ptr_bytes p)
       (unlinked_sites placeholder linkData)"

text \<open>
  A list of patches applied in order, and the addresses that the patch sites at a list of
  offsets cover.
\<close>

fun apply_patches :: "(uint32_t \<times> ptr) list \<Rightarrow> code_buffer \<Rightarrow> code_buffer" where
  "apply_patches [] buf = buf"
| "apply_patches ((offset, p) # ps) buf = apply_patches ps (patch buf offset p)"

definition covered :: "uint32_t list \<Rightarrow> nat \<Rightarrow> bool" where
  "covered offsets a \<longleftrightarrow> list_ex (\<lambda>offset. unat offset \<le> a \<and> a < unat offset + 8) offsets"

definition example_linkData :: LinkData where
  "example_linkData =
     \<lparr>trapOffset = 0,
      internalLinks = [\<lparr>patchAtOffset = 16, targetOffset = 64\<rparr>],
      symbolicLinks = [[32], []]\<rparr>"

definition example_symbols :: "nat \<Rightarrow> ptr option" where
  "example_symbols imm = (if imm < 2 then Some (of_nat (4660 + imm)) else None)"

definition example_placeholder :: "nat \<Rightarrow> ptr" where
  "example_placeholder imm = - 1"

definition example_code :: code_buffer where
  "example_code =
     patch (patch (\<lambda>a. 144) 16 64) 32 (- 1)"

section \<open>Properties: helper lemmas\<close>

lemma seq_Inr_iff:
  "seq r f = Inr y \<longleftrightarrow> (\<exists>x. r = Inr x \<and> f x = Inr y)"
  by (cases r) (simp_all add: seq_def)

lemma seq_Inr [simp]: "seq (Inr x) f = f x"
  by (simp add: seq_def)

lemma seq_Inl [simp]: "seq (Inl e) f = Inl e"
  by (simp add: seq_def)

lemma unat_neq: "j \<noteq> i \<Longrightarrow> unat j \<noteq> unat (i :: 64 word)"
  by (simp add: word_unat_eq_iff)

lemma load_after_store:
  "store_slot tbl i target = Inr tbl' \<Longrightarrow>
   load_slot tbl' j = (if j = i then Inr target else load_slot tbl j)"
  by (auto simp: store_slot_def load_slot_def unat_neq split: option.splits if_splits)

lemma setTieringEntry_other_mode:
  "jt_mode jt \<noteq> Tier1 \<Longrightarrow> setTieringEntry debug jt i target = Inr jt' \<Longrightarrow> jt' = jt"
  by (auto simp: setTieringEntry_def seq_Inr_iff split: if_splits)

lemma setTieringEntry_jit:
  "setTieringEntry debug jt i target = Inr jt' \<Longrightarrow>
   jt_jit jt' = jt_jit jt \<and> jt_mode jt' = jt_mode jt"
  by (auto simp: setTieringEntry_def seq_Inr_iff split: if_splits)

lemma setJitEntry_frame:
  "setJitEntry debug jt i target = Inr jt' \<Longrightarrow>
   jt_tiering jt' = jt_tiering jt \<and> jt_mode jt' = jt_mode jt"
  by (auto simp: setJitEntry_def seq_Inr_iff)

lemma setJitEntryIfNull_frame:
  "setJitEntryIfNull debug jt i target = Inr jt' \<Longrightarrow>
   jt_tiering jt' = jt_tiering jt \<and> jt_mode jt' = jt_mode jt"
  by (auto simp: setJitEntryIfNull_def seq_Inr_iff split: if_splits)

lemma jt_apply_other_mode:
  "jt_mode jt \<noteq> Tier1 \<Longrightarrow> jt_apply debug jt op = Inr jt' \<Longrightarrow>
   jt_tiering jt' = jt_tiering jt \<and> jt_mode jt' = jt_mode jt"
  by (cases op) (auto dest: setJitEntry_frame setJitEntryIfNull_frame setTieringEntry_other_mode)

lemma jt_run_other_mode:
  "jt_mode jt \<noteq> Tier1 \<Longrightarrow> jt_run debug jt ops = Inr jt' \<Longrightarrow>
   jt_tiering jt' = jt_tiering jt \<and> jt_mode jt' = jt_mode jt"
proof (induction ops arbitrary: jt)
  case Nil
  then show ?case by simp
next
  case (Cons op ops)
  from Cons.prems(2) obtain jt1 where
    step: "jt_apply debug jt op = Inr jt1" and rest: "jt_run debug jt1 ops = Inr jt'"
    by (auto simp: seq_Inr_iff)
  from jt_apply_other_mode [OF Cons.prems(1) step]
  have same: "jt_tiering jt1 = jt_tiering jt" "jt_mode jt1 = jt_mode jt" by simp_all
  with Cons.prems(1) have "jt_mode jt1 \<noteq> Tier1" by simp
  from Cons.IH [OF this rest] same show ?case by simp
qed

text \<open>
  Claim C10. In a compile mode other than \<^verbatim>\<open>Tier1\<close>, \<^verbatim>\<open>setTieringEntry(i, target)\<close>
  returns the jump tables as they were (in a DEBUG build the index assertion comes first),
  and no sequence of jump-table writes changes the tiering table: the tiering table is
  written in mode \<^verbatim>\<open>Tier1\<close> only.
\<close>

theorem setTieringEntry_noop:
  "jt_mode jt \<noteq> Tier1 \<Longrightarrow>
     setTieringEntry debug jt i target =
       (if debug \<and> \<not> i < jt_numFuncs jt then Inl DebugAssertion else Inr jt) \<and>
     (\<forall>ops jt'. jt_run debug jt ops = Inr jt' \<longrightarrow> jt_tiering jt' = jt_tiering jt)"
  using jt_run_other_mode [of jt debug]
  by (auto simp: setTieringEntry_def MOZ_ASSERT_def)

theorem setTieringEntry_noop_witness:
  "jt_mode example_tables \<noteq> Tier1 \<and>
   setTieringEntry True example_tables 1 64 = Inr example_tables \<and>
   jt_run True example_tables [SetTieringEntry 1 64, SetJitEntry 1 6] =
     Inr (example_tables\<lparr>jt_jit := Some \<lparr>tbl_addr = 4096, tbl_slots = [5, 6, 7]\<rparr>\<rparr>) \<and>
   jt_tiering (example_tables\<lparr>jt_jit := Some \<lparr>tbl_addr = 4096, tbl_slots = [5, 6, 7]\<rparr>\<rparr>) =
     jt_tiering example_tables"
proof -
  have mode: "jt_mode example_tables \<noteq> Tier1"
    by (simp add: example_tables_def)
  have run: "jt_run True example_tables [SetTieringEntry 1 64, SetJitEntry 1 6] =
     Inr (example_tables\<lparr>jt_jit := Some \<lparr>tbl_addr = 4096, tbl_slots = [5, 6, 7]\<rparr>\<rparr>)"
    by (simp add: example_tables_def setJitEntry_def setTieringEntry_def
        MOZ_ASSERT_def store_slot_def)
  have one: "(1 :: size_t) < jt_numFuncs example_tables"
    by (simp add: example_tables_def)
  from setTieringEntry_noop [OF mode, of True 1 64] one run mode show ?thesis
    by simp
qed

lemma setJitEntryIfNull_keeps:
  "setJitEntryIfNull debug jt j target = Inr jt' \<Longrightarrow> load_slot (jt_jit jt) i = Inr v \<Longrightarrow>
   v \<noteq> 0 \<Longrightarrow> load_slot (jt_jit jt') i = Inr v"
  by (auto simp: setJitEntryIfNull_def seq_Inr_iff load_after_store split: if_splits)

lemma setJitEntry_other_slot:
  "setJitEntry debug jt j target = Inr jt' \<Longrightarrow> j \<noteq> i \<Longrightarrow>
   load_slot (jt_jit jt') i = load_slot (jt_jit jt) i"
  by (auto simp: setJitEntry_def seq_Inr_iff load_after_store)

lemma jt_apply_keeps:
  "jt_apply debug jt op = Inr jt' \<Longrightarrow> \<forall>t. op \<noteq> SetJitEntry i t \<Longrightarrow>
   load_slot (jt_jit jt) i = Inr v \<Longrightarrow> v \<noteq> 0 \<Longrightarrow> load_slot (jt_jit jt') i = Inr v"
proof (cases op)
  case (SetJitEntry j t)
  assume a: "jt_apply debug jt op = Inr jt'" "\<forall>t. op \<noteq> SetJitEntry i t"
    "load_slot (jt_jit jt) i = Inr v"
  with SetJitEntry have "j \<noteq> i" by auto
  with a SetJitEntry show ?thesis by (simp add: setJitEntry_other_slot)
next
  case (SetJitEntryIfNull j t)
  assume "jt_apply debug jt op = Inr jt'" "load_slot (jt_jit jt) i = Inr v" "v \<noteq> 0"
  with SetJitEntryIfNull show ?thesis by (simp add: setJitEntryIfNull_keeps)
next
  case (SetTieringEntry j t)
  assume "jt_apply debug jt op = Inr jt'" "load_slot (jt_jit jt) i = Inr v"
  with SetTieringEntry show ?thesis by (auto dest: setTieringEntry_jit)
qed

text \<open>
  Claim C2, as the code has it. A jit-entry slot that holds a non-null value keeps that
  value through every sequence of \<^verbatim>\<open>setJitEntryIfNull\<close>, \<^verbatim>\<open>setTieringEntry\<close> and
  \<^verbatim>\<open>setJitEntry\<close> calls in which no \<^verbatim>\<open>setJitEntry\<close> targets that slot: the
  compare-and-swap writes a null slot only.
\<close>

theorem jit_entry_monotonic:
  "jt_run debug jt ops = Inr jt' \<Longrightarrow> \<forall>t. SetJitEntry i t \<notin> set ops \<Longrightarrow>
   load_slot (jt_jit jt) i = Inr v \<Longrightarrow> v \<noteq> 0 \<Longrightarrow> load_slot (jt_jit jt') i = Inr v"
proof (induction ops arbitrary: jt)
  case Nil
  then show ?case by simp
next
  case (Cons op ops)
  from Cons.prems(1) obtain jt1 where
    step: "jt_apply debug jt op = Inr jt1" and rest: "jt_run debug jt1 ops = Inr jt'"
    by (auto simp: seq_Inr_iff)
  from Cons.prems(2) have here: "\<forall>t. op \<noteq> SetJitEntry i t"
    and later: "\<forall>t. SetJitEntry i t \<notin> set ops" by auto
  from jt_apply_keeps [OF step here Cons.prems(3) Cons.prems(4)]
  have "load_slot (jt_jit jt1) i = Inr v" .
  from Cons.IH [OF rest later this Cons.prems(4)] show ?case .
qed

theorem jit_entry_monotonic_witness:
  "jt_run True example_tables [SetJitEntryIfNull 0 9, SetJitEntry 1 6, SetTieringEntry 2 8] =
     Inr (example_tables\<lparr>jt_jit := Some \<lparr>tbl_addr = 4096, tbl_slots = [5, 6, 7]\<rparr>\<rparr>) \<and>
   (\<forall>t. SetJitEntry 0 t \<notin> set [SetJitEntryIfNull 0 9, SetJitEntry 1 6, SetTieringEntry 2 8]) \<and>
   load_slot (jt_jit example_tables) 0 = Inr 5 \<and> (5 :: ptr) \<noteq> 0 \<and>
   load_slot (Some \<lparr>tbl_addr = 4096, tbl_slots = [5, 6, 7]\<rparr>) 0 = Inr 5"
proof -
  have run: "jt_run True example_tables
      [SetJitEntryIfNull 0 9, SetJitEntry 1 6, SetTieringEntry 2 8] =
     Inr (example_tables\<lparr>jt_jit := Some \<lparr>tbl_addr = 4096, tbl_slots = [5, 6, 7]\<rparr>\<rparr>)"
    by (simp add: example_tables_def setJitEntryIfNull_def setJitEntry_def setTieringEntry_def
        MOZ_ASSERT_def load_slot_def store_slot_def)
  have no: "\<forall>t. SetJitEntry 0 t \<notin>
      set [SetJitEntryIfNull 0 9, SetJitEntry 1 6, SetTieringEntry 2 8]"
    by simp
  have before: "load_slot (jt_jit example_tables) 0 = Inr 5"
    by (simp add: example_tables_def load_slot_def)
  have nz: "(5 :: ptr) \<noteq> 0" by simp
  from jit_entry_monotonic [OF run no before nz] run no before nz show ?thesis by simp
qed

text \<open>
  The claim C2 as it is written fails: \<^verbatim>\<open>setJitEntry\<close> is a plain store, so it turns a
  non-null slot into null, or into another non-null value.
\<close>

theorem setJitEntry_overwrites:
  "load_slot (jt_jit example_tables) 0 = Inr 5 \<and>
   jt_run True example_tables [SetJitEntry 0 0] =
     Inr (example_tables\<lparr>jt_jit := Some \<lparr>tbl_addr = 4096, tbl_slots = [0, 0, 7]\<rparr>\<rparr>) \<and>
   jt_run True example_tables [SetJitEntry 0 9] =
     Inr (example_tables\<lparr>jt_jit := Some \<lparr>tbl_addr = 4096, tbl_slots = [9, 0, 7]\<rparr>\<rparr>)"
  by (simp add: example_tables_def setJitEntry_def MOZ_ASSERT_def load_slot_def store_slot_def)

subsection \<open>The reverse mapping of jit-entry slots\<close>

lemma sint_mult8:
  fixes i :: "'a::len word"
  assumes "8 * uint i < 2 ^ (LENGTH('a) - 1)"
  shows "sint (8 * i) = 8 * uint i"
proof -
  have "8 * i = word_of_int (8 * uint i)" by simp
  then have "sint (8 * i) = signed_take_bit (LENGTH('a) - 1) (8 * uint i)"
    by (simp only: sint_sbintrunc')
  also have "\<dots> = 8 * uint i"
  proof (rule signed_take_bit_int_eq_self)
    have "(0::int) \<le> 8 * uint i" by simp
    moreover have "- (2 ^ (LENGTH('a) - 1)) \<le> (0::int)" by simp
    ultimately show "- (2 ^ (LENGTH('a) - 1)) \<le> 8 * uint i" by (rule order_trans [rotated])
    show "8 * uint i < 2 ^ (LENGTH('a) - 1)" by (rule assms)
  qed
  finally show ?thesis .
qed

lemma ptr_diff_slot:
  fixes a i :: "64 word"
  assumes "8 * unat i < 2 ^ 63"
  shows "ptr_diff (a + sizeof_ptr * i) a = i"
proof -
  have "int (8 * unat i) < int (2 ^ 63)" using assms by (simp only: of_nat_less_iff)
  then have "8 * int (unat i) < 2 ^ 63" by simp
  then have "8 * uint i < 2 ^ (LENGTH(64) - 1)" by simp
  then have s: "sint (8 * i) = 8 * uint i" by (rule sint_mult8)
  have "sint (8 * i) div 8 = uint i"
    unfolding s by simp
  then show ?thesis
    by (simp add: ptr_diff_def sizeof_ptr_def)
qed

lemma unat_8_mult:
  fixes i :: "64 word"
  assumes "8 * unat i < 2 ^ 64"
  shows "unat (8 * i) = 8 * unat i"
proof -
  have "unat (8 * i) = (unat (8 :: 64 word) * unat i) mod 2 ^ LENGTH(64)"
    by (rule unat_word_ariths)
  also have "\<dots> = (8 * unat i) mod 2 ^ 64" by simp
  also have "\<dots> = 8 * unat i" using assms by (rule mod_less)
  finally show ?thesis .
qed

lemma slot_no_wrap:
  fixes a i :: "64 word"
  assumes "unat a + 8 * unat i < 2 ^ 64"
  shows "unat (a + 8 * i) = unat a + 8 * unat i"
proof -
  have m: "unat (8 * i) = 8 * unat i"
    by (rule unat_8_mult) (use assms in linarith)
  have "unat (a + 8 * i) = (unat a + unat (8 * i)) mod 2 ^ LENGTH(64)"
    by (rule unat_word_ariths)
  also have "\<dots> = (unat a + 8 * unat i) mod 2 ^ 64" by (simp add: m)
  also have "\<dots> = unat a + 8 * unat i" using assms by (rule mod_less)
  finally show ?thesis .
qed

lemma slot_le:
  fixes a i j :: "64 word"
  assumes "unat a + 8 * unat j < 2 ^ 64" and "i \<le> j"
  shows "a + 8 * i \<le> a + 8 * j"
proof -
  from assms(2) have ij: "unat i \<le> unat j" by (simp add: word_le_nat_alt)
  with assms(1) have "unat a + 8 * unat i < 2 ^ 64" by linarith
  then have "unat (a + 8 * i) = unat a + 8 * unat i" by (rule slot_no_wrap)
  moreover have "unat (a + 8 * j) = unat a + 8 * unat j" using assms(1) by (rule slot_no_wrap)
  ultimately show ?thesis using ij by (simp add: word_le_nat_alt)
qed

text \<open>
  Claim C9. For a jit-entry table of \<^verbatim>\<open>numFuncs_\<close> slots and an index
  \<open>i < numFuncs_\<close> whose slot is non-null, \<^verbatim>\<open>funcIndexFromJitEntry\<close> applied to
  the address that \<^verbatim>\<open>getAddressOfJitEntry(i)\<close> returns gives \<open>i\<close> back, in DEBUG
  and in release builds.
\<close>

theorem funcIndexFromJitEntry_inverse:
  assumes tbl: "jt_jit jt = Some t"
    and placed: "table_placed t"
    and len: "length (tbl_slots t) = unat (jt_numFuncs jt)"
    and i: "i < jt_numFuncs jt"
    and nonnull: "tbl_slots t ! unat i \<noteq> 0"
  shows "seq (getAddressOfJitEntry debug jt i) (funcIndexFromJitEntry debug jt) = Inr i"
proof -
  from i have iu: "unat i < unat (jt_numFuncs jt)" by (simp add: word_less_nat_alt)
  from i have pos: "jt_numFuncs jt \<noteq> 0" by (metis word_not_simps(1))
  have load: "load_slot (jt_jit jt) i = Inr (tbl_slots t ! unat i)"
    using tbl len iu by (simp add: load_slot_def)
  have addr: "getAddressOfJitEntry debug jt i = Inr (tbl_addr t + 8 * i)"
    using i load nonnull tbl
    by (simp add: getAddressOfJitEntry_def MOZ_ASSERT_def slot_address_def sizeof_ptr_def)
  have n1: "unat (jt_numFuncs jt - 1) = unat (jt_numFuncs jt) - 1"
    using pos by (simp add: unat_minus_one)
  from placed len have fit: "unat (tbl_addr t) + 8 * unat (jt_numFuncs jt) \<le> 2 ^ 64"
    and small: "8 * unat (jt_numFuncs jt) < 2 ^ 63"
    by (simp_all add: table_placed_def)
  have last_fit: "unat (tbl_addr t) + 8 * unat (jt_numFuncs jt - 1) < 2 ^ 64"
    using fit iu n1 by linarith
  have ile: "i \<le> jt_numFuncs jt - 1"
    using iu n1 by (simp add: word_le_nat_alt)
  have zero_le: "(0 :: 64 word) \<le> i" by simp
  have i_fit: "unat (tbl_addr t) + 8 * unat i < 2 ^ 64" using fit iu by linarith
  have ge: "tbl_addr t \<le> tbl_addr t + 8 * i"
    using slot_le [OF i_fit zero_le] by simp
  have le: "tbl_addr t + 8 * i \<le> tbl_addr t + 8 * (jt_numFuncs jt - 1)"
    by (rule slot_le [OF last_fit ile])
  have small_i: "8 * unat i < 2 ^ 63" using small iu by linarith
  have diff: "ptr_diff (tbl_addr t + 8 * i) (tbl_addr t) = i"
    using ptr_diff_slot [OF small_i, of "tbl_addr t"] by (simp add: sizeof_ptr_def)
  have "funcIndexFromJitEntry debug jt (tbl_addr t + 8 * i) = Inr i"
    using tbl ge le diff
    by (simp add: funcIndexFromJitEntry_def slot_address_def sizeof_ptr_def MOZ_ASSERT_def)
  with addr show ?thesis by simp
qed

theorem funcIndexFromJitEntry_inverse_witness:
  "jt_jit example_tables = Some \<lparr>tbl_addr = 4096, tbl_slots = [5, 0, 7]\<rparr> \<and>
   table_placed \<lparr>tbl_addr = 4096, tbl_slots = [5, 0, 7]\<rparr> \<and>
   (2 :: size_t) < jt_numFuncs example_tables \<and>
   getAddressOfJitEntry True example_tables 2 = Inr 4112 \<and>
   seq (getAddressOfJitEntry True example_tables 2) (funcIndexFromJitEntry True example_tables) = Inr 2"
proof -
  have tbl: "jt_jit example_tables = Some \<lparr>tbl_addr = 4096, tbl_slots = [5, 0, 7]\<rparr>"
    by (simp add: example_tables_def)
  have placed: "table_placed \<lparr>tbl_addr = 4096, tbl_slots = [5, 0, 7]\<rparr>"
    by (simp add: table_placed_def)
  have len: "length (tbl_slots \<lparr>tbl_addr = 4096, tbl_slots = [5, 0, 7 :: ptr]\<rparr>) =
      unat (jt_numFuncs example_tables)"
    by (simp add: example_tables_def)
  have i: "(2 :: size_t) < jt_numFuncs example_tables"
    by (simp add: example_tables_def)
  have nn: "tbl_slots \<lparr>tbl_addr = 4096, tbl_slots = [5, 0, 7 :: ptr]\<rparr> ! unat (2 :: size_t) \<noteq> 0"
    by simp
  have a: "getAddressOfJitEntry True example_tables 2 = Inr 4112"
    by (simp add: example_tables_def getAddressOfJitEntry_def MOZ_ASSERT_def load_slot_def
        slot_address_def sizeof_ptr_def)
  from funcIndexFromJitEntry_inverse [OF tbl placed len i nn, of True] tbl placed i a
  show ?thesis by simp
qed

subsection \<open>The bump allocator of a code segment\<close>

lemma unat_lt32: "unat (x :: 32 word) < 2 ^ 32"
  using unsigned_less [of x, where 'a = nat] by simp

lemma unat_up: "unat (ucast (x :: 32 word) :: 64 word) = unat x"
proof -
  have "unat x < 2 ^ 32" by (rule unat_lt32)
  also have "(2 :: nat) ^ 32 \<le> 2 ^ LENGTH(64)" by simp
  finally have "take_bit LENGTH(64) (unat x) = unat x" by (rule take_bit_nat_eq_self)
  then show ?thesis by (simp only: unsigned_ucast_eq)
qed

lemma unat_down: "unat (ucast (x :: 64 word) :: 32 word) = unat x mod 2 ^ 32"
  by (simp add: unsigned_ucast_eq take_bit_eq_mod)

lemma hasSpace_cond:
  fixes len cap :: "32 word" and n :: "64 word"
  shows "(n \<le> ucast cap \<and> (ucast len :: 64 word) \<le> ucast cap - n) \<longleftrightarrow>
         unat len + unat n \<le> unat cap"
proof (cases "n \<le> (ucast cap :: 64 word)")
  case True
  then have le: "unat n \<le> unat cap" by (simp add: word_le_nat_alt unat_up)
  have "unat ((ucast cap :: 64 word) - n) = unat cap - unat n"
    using True by (simp add: unat_sub unat_up)
  then have "((ucast len :: 64 word) \<le> ucast cap - n) \<longleftrightarrow> unat len \<le> unat cap - unat n"
    by (simp add: word_le_nat_alt unat_up)
  with True le show ?thesis by auto
next
  case False
  then have "\<not> unat n \<le> unat cap" by (simp add: word_le_nat_alt unat_up)
  with False show ?thesis by auto
qed

lemma hasSpace_exact:
  "hasSpace debug align seg n = Inr b \<Longrightarrow>
   b = (unat (seg_lengthBytes seg) + unat n \<le> unat (seg_capacityBytes seg))"
  using hasSpace_cond [of n "seg_capacityBytes seg" "seg_lengthBytes seg"]
  by (auto simp: hasSpace_def capacityBytes_def seq_Inr_iff split: if_splits)

lemma hasSpace_returns:
  "\<not> debug \<or> (align n = n \<and> seg_capacityBytes seg \<noteq> UINT32_MAX) \<Longrightarrow>
   \<exists>b. hasSpace debug align seg n = Inr b"
  by (auto simp: hasSpace_def capacityBytes_def MOZ_ASSERT_def)

lemma new_length:
  fixes len cap :: "32 word" and n :: "64 word"
  assumes "unat len + unat n \<le> unat cap"
  shows "unat (ucast ((ucast len :: 64 word) + n) :: 32 word) = unat len + unat n"
proof -
  have c: "unat cap < 2 ^ 32" by (rule unat_lt32)
  have "unat ((ucast len :: 64 word) + n) = (unat (ucast len :: 64 word) + unat n) mod 2 ^ LENGTH(64)"
    by (rule unat_word_ariths)
  also have "\<dots> = (unat len + unat n) mod 2 ^ 64" by (simp add: unat_up)
  also have "\<dots> = unat len + unat n"
    using assms c by (intro mod_less) simp
  finally have s: "unat ((ucast len :: 64 word) + n) = unat len + unat n" .
  have "unat (ucast ((ucast len :: 64 word) + n) :: 32 word) =
        unat ((ucast len :: 64 word) + n) mod 2 ^ LENGTH(32)"
    by (simp add: unat_down)
  also have "\<dots> = (unat len + unat n) mod 2 ^ 32" by (simp add: s)
  also have "\<dots> = unat len + unat n"
    using assms c by (intro mod_less) simp
  finally show ?thesis .
qed

lemma claimSpace_result:
  assumes "hasSpace debug align seg n = Inr True"
  shows "claimSpace debug align seg n =
           Inr (base seg + ucast (seg_lengthBytes seg),
                seg\<lparr>seg_lengthBytes := ucast (ucast (seg_lengthBytes seg) + n :: size_t)\<rparr>)"
  using assms by (simp add: claimSpace_def MOZ_RELEASE_ASSERT_def)

lemma claimSpace_Inr:
  assumes "claimSpace debug align seg n = Inr (p, seg')"
  shows "hasSpace debug align seg n = Inr True \<and>
         p = base seg + ucast (seg_lengthBytes seg) \<and>
         seg_bytes seg' = seg_bytes seg \<and> seg_capacityBytes seg' = seg_capacityBytes seg \<and>
         unat (seg_lengthBytes seg') = unat (seg_lengthBytes seg) + unat n \<and>
         unat (seg_lengthBytes seg') \<le> unat (seg_capacityBytes seg)"
proof -
  from assms obtain ok where h: "hasSpace debug align seg n = Inr ok" and ok: "ok"
    and res: "p = base seg + ucast (seg_lengthBytes seg)"
      "seg' = seg\<lparr>seg_lengthBytes := ucast (ucast (seg_lengthBytes seg) + n :: size_t)\<rparr>"
    by (auto simp: claimSpace_def seq_Inr_iff MOZ_RELEASE_ASSERT_def split: if_splits)
  from hasSpace_exact [OF h] ok
  have fits: "unat (seg_lengthBytes seg) + unat n \<le> unat (seg_capacityBytes seg)" by simp
  from new_length [OF fits] res fits h ok show ?thesis by simp
qed

lemma claimed_address:
  assumes "segment_placed seg" and "unat (seg_lengthBytes seg) \<le> unat (seg_capacityBytes seg)"
  shows "unat (base seg + ucast (seg_lengthBytes seg)) =
         unat (seg_bytes seg) + unat (seg_lengthBytes seg)"
proof -
  have "unat (seg_bytes seg + (ucast (seg_lengthBytes seg) :: 64 word)) =
        (unat (seg_bytes seg) + unat (ucast (seg_lengthBytes seg) :: 64 word)) mod 2 ^ LENGTH(64)"
    by (rule unat_word_ariths)
  also have "\<dots> = (unat (seg_bytes seg) + unat (seg_lengthBytes seg)) mod 2 ^ 64"
    by (simp add: unat_up)
  also have "\<dots> = unat (seg_bytes seg) + unat (seg_lengthBytes seg)"
    using assms by (intro mod_less) (simp add: segment_placed_def)
  finally show ?thesis by (simp add: base_def)
qed

lemma claimSpaces_ranges:
  "claimSpaces debug align seg ns = Inr (seg', rs) \<Longrightarrow> segment_placed seg \<Longrightarrow>
   unat (seg_lengthBytes seg) \<le> unat (seg_capacityBytes seg) \<Longrightarrow>
   seg_bytes seg' = seg_bytes seg \<and> seg_capacityBytes seg' = seg_capacityBytes seg \<and>
   unat (seg_lengthBytes seg') \<le> unat (seg_capacityBytes seg') \<and>
   sorted_wrt range_before rs \<and>
   (\<forall>r \<in> set rs. range_inside seg r \<and>
       unat (seg_bytes seg) + unat (seg_lengthBytes seg) \<le> unat (fst r))"
proof (induction ns arbitrary: seg rs)
  case Nil
  then show ?case by simp
next
  case (Cons n ns)
  from Cons.prems(1) obtain p seg1 rs1 where
    first: "claimSpace debug align seg n = Inr (p, seg1)" and
    rest: "claimSpaces debug align seg1 ns = Inr (seg', rs1)" and
    rs: "rs = (p, n) # rs1"
    by (auto simp: seq_Inr_iff split: prod.splits)
  note c = claimSpace_Inr [OF first]
  from c have same: "seg_bytes seg1 = seg_bytes seg" "seg_capacityBytes seg1 = seg_capacityBytes seg"
    and grow: "unat (seg_lengthBytes seg1) = unat (seg_lengthBytes seg) + unat n"
    and fit: "unat (seg_lengthBytes seg1) \<le> unat (seg_capacityBytes seg)"
    and p: "p = base seg + ucast (seg_lengthBytes seg)"
    by simp_all
  have placed1: "segment_placed seg1"
    using Cons.prems(2) same by (simp add: segment_placed_def)
  have inv1: "unat (seg_lengthBytes seg1) \<le> unat (seg_capacityBytes seg1)"
    using fit same by simp
  note ih = Cons.IH [OF rest placed1 inv1]
  have pa: "unat p = unat (seg_bytes seg) + unat (seg_lengthBytes seg)"
    unfolding p by (rule claimed_address [OF Cons.prems(2) Cons.prems(3)])
  have inside_p: "range_inside seg (p, n)"
    using pa grow fit by (simp add: range_inside_def)
  have later: "\<forall>r \<in> set rs1. range_before (p, n) r \<and> range_inside seg r \<and>
      unat (seg_bytes seg) + unat (seg_lengthBytes seg) \<le> unat (fst r)"
    using ih pa grow same by (auto simp: range_before_def range_inside_def)
  from ih later inside_p pa same rs show ?case by auto
qed

text \<open>
  Claim C6. \<^verbatim>\<open>hasSpace(n)\<close> answers exactly whether \<open>lengthBytes + n\<close> is at most
  \<open>capacityBytes\<close>, the sum taken in the natural numbers, so no wrap-around of the
  machine arithmetic enters the answer, and it returns whenever its DEBUG assertions hold.
  When \<^verbatim>\<open>hasSpace(n)\<close> holds, \<^verbatim>\<open>claimSpace(n)\<close> returns \<open>base + lengthBytes\<close>
  and adds \<open>n\<close> to \<open>lengthBytes\<close>, which stays at most \<open>capacityBytes\<close>.
  The ranges returned by a sequence of claims lie inside the segment, each one before the
  ranges claimed after it.
\<close>

theorem claimSpace_bump_allocator:
  "(\<forall>b. hasSpace debug align seg n = Inr b \<longrightarrow>
        b = (unat (seg_lengthBytes seg) + unat n \<le> unat (seg_capacityBytes seg))) \<and>
   (\<not> debug \<or> (align n = n \<and> seg_capacityBytes seg \<noteq> UINT32_MAX) \<longrightarrow>
        (\<exists>b. hasSpace debug align seg n = Inr b)) \<and>
   (hasSpace debug align seg n = Inr True \<longrightarrow>
        (\<exists>seg'. claimSpace debug align seg n = Inr (base seg + ucast (seg_lengthBytes seg), seg') \<and>
           seg_bytes seg' = seg_bytes seg \<and> seg_capacityBytes seg' = seg_capacityBytes seg \<and>
           unat (seg_lengthBytes seg') = unat (seg_lengthBytes seg) + unat n \<and>
           seg_lengthBytes seg' \<le> seg_capacityBytes seg')) \<and>
   (segment_placed seg \<and> seg_lengthBytes seg \<le> seg_capacityBytes seg \<longrightarrow>
        (\<forall>ns seg' rs. claimSpaces debug align seg ns = Inr (seg', rs) \<longrightarrow>
           seg_lengthBytes seg' \<le> seg_capacityBytes seg' \<and>
           sorted_wrt range_before rs \<and> (\<forall>r \<in> set rs. range_inside seg r)))"
proof (intro conjI allI impI ballI)
  fix b assume "hasSpace debug align seg n = Inr b"
  then show "b = (unat (seg_lengthBytes seg) + unat n \<le> unat (seg_capacityBytes seg))"
    by (rule hasSpace_exact)
next
  assume "\<not> debug \<or> (align n = n \<and> seg_capacityBytes seg \<noteq> UINT32_MAX)"
  then show "\<exists>b. hasSpace debug align seg n = Inr b" by (rule hasSpace_returns)
next
  assume h: "hasSpace debug align seg n = Inr True"
  let ?seg' = "seg\<lparr>seg_lengthBytes := ucast (ucast (seg_lengthBytes seg) + n :: size_t)\<rparr>"
  have c: "claimSpace debug align seg n = Inr (base seg + ucast (seg_lengthBytes seg), ?seg')"
    by (rule claimSpace_result [OF h])
  from claimSpace_Inr [OF c] c
  show "\<exists>seg'. claimSpace debug align seg n = Inr (base seg + ucast (seg_lengthBytes seg), seg') \<and>
           seg_bytes seg' = seg_bytes seg \<and> seg_capacityBytes seg' = seg_capacityBytes seg \<and>
           unat (seg_lengthBytes seg') = unat (seg_lengthBytes seg) + unat n \<and>
           seg_lengthBytes seg' \<le> seg_capacityBytes seg'"
    by (intro exI [of _ ?seg']) (simp add: word_le_nat_alt)
next
  fix ns seg' rs
  assume a: "segment_placed seg \<and> seg_lengthBytes seg \<le> seg_capacityBytes seg"
    and run: "claimSpaces debug align seg ns = Inr (seg', rs)"
  from a have placed: "segment_placed seg"
    and inv: "unat (seg_lengthBytes seg) \<le> unat (seg_capacityBytes seg)"
    by (simp_all add: word_le_nat_alt)
  note r = claimSpaces_ranges [OF run placed inv]
  from r have "unat (seg_lengthBytes seg') \<le> unat (seg_capacityBytes seg')" by blast
  then show "seg_lengthBytes seg' \<le> seg_capacityBytes seg'" by (simp add: word_le_nat_alt)
  from r show "sorted_wrt range_before rs" by simp
  fix r' assume "r' \<in> set rs"
  with r show "range_inside seg r'" by simp
qed

theorem claimSpace_bump_allocator_witness:
  "hasSpace True example_align example_segment 4096 = Inr True \<and>
   example_align 4096 = 4096 \<and>
   claimSpace True example_align example_segment 4096 =
     Inr (69632, example_segment\<lparr>seg_lengthBytes := 8192\<rparr>) \<and>
   segment_placed example_segment \<and>
   seg_lengthBytes example_segment \<le> seg_capacityBytes example_segment \<and>
   claimSpaces True example_align example_segment [4096, 8192] =
     Inr (example_segment\<lparr>seg_lengthBytes := 16384\<rparr>, [(69632, 4096), (73728, 8192)]) \<and>
   sorted_wrt range_before [(69632, 4096), (73728, 8192)] \<and>
   hasSpace True example_align (example_segment\<lparr>seg_lengthBytes := 16384\<rparr>) 4096 = Inr False"
proof -
  have al: "example_align 4096 = 4096" "example_align 8192 = 8192"
    by (simp_all add: example_align_def)
  have h: "hasSpace True example_align example_segment 4096 = Inr True"
    by (simp add: hasSpace_def capacityBytes_def MOZ_ASSERT_def al example_segment_def UINT32_MAX_def)
  have c: "claimSpace True example_align example_segment 4096 =
     Inr (69632, example_segment\<lparr>seg_lengthBytes := 8192\<rparr>)"
    by (simp add: claimSpace_def h [unfolded example_segment_def] MOZ_RELEASE_ASSERT_def base_def
        example_segment_def)
  have placed: "segment_placed example_segment"
    by (simp add: segment_placed_def example_segment_def)
  have inv: "seg_lengthBytes example_segment \<le> seg_capacityBytes example_segment"
    by (simp add: example_segment_def)
  have h2: "hasSpace True example_align (example_segment\<lparr>seg_lengthBytes := 8192\<rparr>) 8192 = Inr True"
    by (simp add: hasSpace_def capacityBytes_def MOZ_ASSERT_def al example_segment_def UINT32_MAX_def)
  have c2: "claimSpace True example_align (example_segment\<lparr>seg_lengthBytes := 8192\<rparr>) 8192 =
     Inr (73728, example_segment\<lparr>seg_lengthBytes := 16384\<rparr>)"
    by (simp add: claimSpace_def h2 [unfolded example_segment_def, simplified]
        MOZ_RELEASE_ASSERT_def base_def example_segment_def)
  have run: "claimSpaces True example_align example_segment [4096, 8192] =
     Inr (example_segment\<lparr>seg_lengthBytes := 16384\<rparr>, [(69632, 4096), (73728, 8192)])"
    by (simp add: c c2)
  have full: "hasSpace True example_align (example_segment\<lparr>seg_lengthBytes := 16384\<rparr>) 4096 = Inr False"
    by (simp add: hasSpace_def capacityBytes_def MOZ_ASSERT_def al example_segment_def UINT32_MAX_def)
  from claimSpace_bump_allocator [of True example_align example_segment 4096] placed inv run
  have "sorted_wrt range_before [(69632, 4096), (73728, 8192)]" by blast
  with h al c placed inv run full show ?thesis by simp
qed

subsection \<open>Binary search and the order of the blocks\<close>

declare BinarySearchIf.simps [simp del]

lemma BinarySearchIf_found:
  "BinarySearchIf c low high cmp = (True, i) \<Longrightarrow> low \<le> i \<and> i < high \<and> cmp (c ! i) = 0"
proof (induction c low high cmp rule: BinarySearchIf.induct)
  case (1 c low high cmp)
  let ?mid = "low + (high - low) div 2"
  show ?case
  proof (cases "low < high")
    case False
    with "1.prems" show ?thesis by (simp add: BinarySearchIf.simps [of c low high cmp])
  next
    case lt: True
    then have mid: "low \<le> ?mid" "?mid < high" by auto
    show ?thesis
    proof (cases "cmp (c ! ?mid) = 0")
      case True
      with lt "1.prems" have "i = ?mid"
        by (simp add: BinarySearchIf.simps [of c low high cmp] Let_def)
      with True mid show ?thesis by simp
    next
      case nz: False
      show ?thesis
      proof (cases "cmp (c ! ?mid) < 0")
        case True
        with nz lt "1.prems" have "BinarySearchIf c low ?mid cmp = (True, i)"
          by (simp add: BinarySearchIf.simps [of c low high cmp] Let_def)
        from "1.IH"(1) [OF lt refl refl nz True this] mid show ?thesis by simp
      next
        case False
        with nz lt "1.prems" have "BinarySearchIf c (?mid + 1) high cmp = (True, i)"
          by (simp add: BinarySearchIf.simps [of c low high cmp] Let_def)
        from "1.IH"(2) [OF lt refl refl nz False this] mid show ?thesis by simp
      qed
    qed
  qed
qed

lemma lookup_unfold:
  "CodeBlockMap_lookup debug lookupRange m pc codeRange =
     (let v = deref m (readonlyCodeBlocks m);
          r = BinarySearchIf v 0 (length v) (CodeBlockPC pc)
      in if debug \<and> numActiveLookups m + 1 = 0 then Inl DebugAssertion
         else if fst r
              then Inr (Some (v ! snd r), map_option (\<lambda>_. lookupRange (v ! snd r) pc) codeRange, m)
              else Inr (None, map_option (\<lambda>_. None) codeRange, m))"
  by (cases "BinarySearchIf (deref m (readonlyCodeBlocks m)) 0
        (length (deref m (readonlyCodeBlocks m))) (CodeBlockPC pc)")
     (auto simp: CodeBlockMap_lookup_def decObserver_def MOZ_ASSERT_def Let_def deref_def
        word_greater_zero_iff split: vector_ref.splits)

lemma BinarySearchIf_bounds:
  "low \<le> high \<Longrightarrow> BinarySearchIf c low high cmp = (f, i) \<Longrightarrow> low \<le> i \<and> i \<le> high"
proof (induction c low high cmp rule: BinarySearchIf.induct)
  case (1 c low high cmp)
  let ?mid = "low + (high - low) div 2"
  show ?case
  proof (cases "low < high")
    case False
    with "1.prems"(2) have "i = low" by (simp add: BinarySearchIf.simps [of c low high cmp])
    with "1.prems"(1) show ?thesis by simp
  next
    case lt: True
    then have mid: "low \<le> ?mid" "?mid < high" by auto
    show ?thesis
    proof (cases "cmp (c ! ?mid) = 0")
      case True
      with lt "1.prems" have "i = ?mid"
        by (simp add: BinarySearchIf.simps [of c low high cmp] Let_def)
      with mid show ?thesis by simp
    next
      case nz: False
      show ?thesis
      proof (cases "cmp (c ! ?mid) < 0")
        case True
        with nz lt "1.prems" have "BinarySearchIf c low ?mid cmp = (f, i)"
          by (simp add: BinarySearchIf.simps [of c low high cmp] Let_def)
        from "1.IH"(1) [OF lt refl refl nz True mid(1) this] mid show ?thesis by simp
      next
        case False
        with nz lt "1.prems" have "BinarySearchIf c (?mid + 1) high cmp = (f, i)"
          by (simp add: BinarySearchIf.simps [of c low high cmp] Let_def)
        moreover from mid have "?mid + 1 \<le> high" by simp
        ultimately show ?thesis using "1.IH"(2) [OF lt refl refl nz False] mid by simp
      qed
    qed
  qed
qed

text \<open>A comparator is monotone on a vector when the elements it places before the target
  come first and the elements it places after the target come last.\<close>

lemma BinarySearchIf_not_found:
  "\<forall>j k. j < k \<and> k < length c \<and> cmp (c ! k) > 0 \<longrightarrow> cmp (c ! j) > 0 \<Longrightarrow>
   \<forall>j k. j < k \<and> k < length c \<and> cmp (c ! j) < 0 \<longrightarrow> cmp (c ! k) < 0 \<Longrightarrow>
   low \<le> high \<Longrightarrow> high \<le> length c \<Longrightarrow>
     (\<forall>k < low. cmp (c ! k) > 0) \<Longrightarrow> (\<forall>k. high \<le> k \<and> k < length c \<longrightarrow> cmp (c ! k) < 0) \<Longrightarrow>
     BinarySearchIf c low high cmp = (False, i) \<Longrightarrow>
     (\<forall>k < i. cmp (c ! k) > 0) \<and> (\<forall>k. i \<le> k \<and> k < length c \<longrightarrow> cmp (c ! k) < 0)"
proof (induction c low high cmp rule: BinarySearchIf.induct)
  case (1 c low high cmp)
  let ?mid = "low + (high - low) div 2"
  note mono_pos = "1.prems"(1) and mono_neg = "1.prems"(2)
  note lh = "1.prems"(3) and hl = "1.prems"(4) and below = "1.prems"(5) and above = "1.prems"(6)
  note res = "1.prems"(7)
  show ?case
  proof (cases "low < high")
    case False
    with lh have "low = high" by simp
    moreover from False res have "i = low" by (simp add: BinarySearchIf.simps [of c low high cmp])
    ultimately show ?thesis using below above by simp
  next
    case lt: True
    then have mid: "low \<le> ?mid" "?mid < high" by auto
    with hl have midlen: "?mid < length c" by simp
    show ?thesis
    proof (cases "cmp (c ! ?mid) = 0")
      case True
      with lt res show ?thesis by (simp add: BinarySearchIf.simps [of c low high cmp] Let_def)
    next
      case nz: False
      show ?thesis
      proof (cases "cmp (c ! ?mid) < 0")
        case True
        with nz lt res have r: "BinarySearchIf c low ?mid cmp = (False, i)"
          by (simp add: BinarySearchIf.simps [of c low high cmp] Let_def)
        have above': "\<forall>k. ?mid \<le> k \<and> k < length c \<longrightarrow> cmp (c ! k) < 0"
        proof (intro allI impI)
          fix k assume k: "?mid \<le> k \<and> k < length c"
          show "cmp (c ! k) < 0"
          proof (cases "k = ?mid")
            case True with \<open>cmp (c ! ?mid) < 0\<close> show ?thesis by simp
          next
            case False
            with k have "?mid < k" by simp
            with mono_neg \<open>cmp (c ! ?mid) < 0\<close> k show ?thesis by blast
          qed
        qed
        from mid hl have "?mid \<le> length c" by simp
        from "1.IH"(1) [OF lt refl refl nz True mono_pos mono_neg mid(1) this below above' r]
        show ?thesis by simp
      next
        case False
        with nz have pos: "cmp (c ! ?mid) > 0" by simp
        from False nz lt res have r: "BinarySearchIf c (?mid + 1) high cmp = (False, i)"
          by (simp add: BinarySearchIf.simps [of c low high cmp] Let_def)
        have below': "\<forall>k < ?mid + 1. cmp (c ! k) > 0"
        proof (intro allI impI)
          fix k assume k: "k < ?mid + 1"
          show "cmp (c ! k) > 0"
          proof (cases "k = ?mid")
            case True with pos show ?thesis by simp
          next
            case False
            with k have "k < ?mid" by simp
            with mono_pos midlen pos show ?thesis by blast
          qed
        qed
        from mid have "?mid + 1 \<le> high" by simp
        from "1.IH"(2) [OF lt refl refl nz False mono_pos mono_neg this hl below' above r]
        show ?thesis by simp
      qed
    qed
  qed
qed

lemma block_end_word:
  assumes "block_placed cb"
  shows "unat (CodeBlock_base cb + ucast (CodeBlock_length cb)) = block_end cb"
proof -
  have "unat (CodeBlock_base cb + (ucast (CodeBlock_length cb) :: 64 word)) =
        (unat (CodeBlock_base cb) + unat (ucast (CodeBlock_length cb) :: 64 word)) mod 2 ^ LENGTH(64)"
    by (rule unat_word_ariths)
  also have "\<dots> = block_end cb mod 2 ^ 64"
    by (simp add: unat_up block_end_def)
  also have "\<dots> = block_end cb"
    using assms by (intro mod_less) (simp add: block_placed_def)
  finally show ?thesis .
qed

lemma containsCodePC_nat:
  "block_placed cb \<Longrightarrow>
   containsCodePC cb pc \<longleftrightarrow> block_start cb \<le> unat pc \<and> unat pc < block_end cb"
  by (simp add: containsCodePC_def word_le_nat_alt word_less_nat_alt block_end_word block_start_def)

lemma block_start_le_end: "block_start cb \<le> block_end cb"
  by (simp add: block_start_def block_end_def)

lemma CodeBlockPC_neg:
  "block_placed cb \<Longrightarrow> CodeBlockPC pc cb < 0 \<longleftrightarrow> unat pc < block_start cb"
  using block_start_le_end [of cb]
  by (auto simp: CodeBlockPC_def containsCodePC_nat word_less_nat_alt block_start_def)

lemma CodeBlockPC_pos:
  "block_placed cb \<Longrightarrow> CodeBlockPC pc cb > 0 \<longleftrightarrow> block_end cb \<le> unat pc"
  using block_start_le_end [of cb]
  by (auto simp: CodeBlockPC_def containsCodePC_nat word_less_nat_alt block_start_def)

lemma CodeBlockPC_zero:
  "block_placed cb \<Longrightarrow>
   CodeBlockPC pc cb = 0 \<longleftrightarrow> block_start cb \<le> unat pc \<and> unat pc < block_end cb"
  by (auto simp: CodeBlockPC_def containsCodePC_nat)

lemma in_order_nth:
  "blocks_in_order v \<Longrightarrow> j < k \<Longrightarrow> k < length v \<Longrightarrow> block_end (v ! j) \<le> block_start (v ! k)"
  using sorted_wrt_nth_less [of "\<lambda>a b. block_end a \<le> block_start b" v j k]
  by (simp add: blocks_in_order_def)

lemma in_order_placed: "blocks_in_order v \<Longrightarrow> k < length v \<Longrightarrow> block_placed (v ! k)"
  by (simp add: blocks_in_order_def)

lemma insertion_point:
  assumes ord: "blocks_in_order v"
    and ap: "\<forall>c \<in> set v. apart b c"
    and res: "BinarySearchIf v 0 (length v) (CodeBlockPC (CodeBlock_base b)) = (f, i)"
  shows "i \<le> length v \<and> (\<forall>k < i. block_end (v ! k) \<le> block_start b) \<and>
         (\<forall>k. i \<le> k \<and> k < length v \<longrightarrow> block_end b \<le> block_start (v ! k))"
proof -
  let ?pc = "CodeBlock_base b"
  let ?cmp = "CodeBlockPC ?pc"
  have p: "unat ?pc = block_start b" by (simp add: block_start_def)
  have apk: "\<And>k. k < length v \<Longrightarrow> apart b (v ! k)" using ap by simp
  from BinarySearchIf_bounds [OF _ res] have ilen: "i \<le> length v" by simp
  show ?thesis
  proof (cases f)
    case False
    have mp: "\<forall>j k. j < k \<and> k < length v \<and> ?cmp (v ! k) > 0 \<longrightarrow> ?cmp (v ! j) > 0"
    proof (intro allI impI)
      fix j k assume a: "j < k \<and> k < length v \<and> ?cmp (v ! k) > 0"
      then have "block_end (v ! k) \<le> unat ?pc"
        using in_order_placed [OF ord, of k] by (simp add: CodeBlockPC_pos)
      moreover have "block_end (v ! j) \<le> block_start (v ! k)"
        using a in_order_nth [OF ord, of j k] by simp
      moreover have "block_start (v ! k) \<le> block_end (v ! k)" by (rule block_start_le_end)
      ultimately have "block_end (v ! j) \<le> unat ?pc" by linarith
      then show "?cmp (v ! j) > 0"
        using a in_order_placed [OF ord, of j] by (simp add: CodeBlockPC_pos)
    qed
    have mn: "\<forall>j k. j < k \<and> k < length v \<and> ?cmp (v ! j) < 0 \<longrightarrow> ?cmp (v ! k) < 0"
    proof (intro allI impI)
      fix j k assume a: "j < k \<and> k < length v \<and> ?cmp (v ! j) < 0"
      then have "unat ?pc < block_start (v ! j)"
        using in_order_placed [OF ord, of j] by (simp add: CodeBlockPC_neg)
      moreover have "block_end (v ! j) \<le> block_start (v ! k)"
        using a in_order_nth [OF ord, of j k] by simp
      moreover have "block_start (v ! j) \<le> block_end (v ! j)" by (rule block_start_le_end)
      ultimately have "unat ?pc < block_start (v ! k)" by linarith
      then show "?cmp (v ! k) < 0"
        using a in_order_placed [OF ord, of k] by (simp add: CodeBlockPC_neg)
    qed
    from res False have r: "BinarySearchIf v 0 (length v) ?cmp = (False, i)" by simp
    have "(\<forall>k < i. ?cmp (v ! k) > 0) \<and> (\<forall>k. i \<le> k \<and> k < length v \<longrightarrow> ?cmp (v ! k) < 0)"
      by (rule BinarySearchIf_not_found [OF mp mn _ _ _ _ r]) simp_all
    then have before: "\<And>k. k < i \<Longrightarrow> ?cmp (v ! k) > 0"
      and after: "\<And>k. i \<le> k \<Longrightarrow> k < length v \<Longrightarrow> ?cmp (v ! k) < 0" by simp_all
    have b1: "\<forall>k < i. block_end (v ! k) \<le> block_start b"
    proof (intro allI impI)
      fix k assume k: "k < i"
      with ilen have kl: "k < length v" by simp
      from before [OF k] in_order_placed [OF ord kl] show "block_end (v ! k) \<le> block_start b"
        by (simp add: CodeBlockPC_pos p)
    qed
    have b2: "\<forall>k. i \<le> k \<and> k < length v \<longrightarrow> block_end b \<le> block_start (v ! k)"
    proof (intro allI impI)
      fix k assume k: "i \<le> k \<and> k < length v"
      then have lt: "block_start b < block_start (v ! k)"
        using after [of k] in_order_placed [OF ord, of k] by (simp add: CodeBlockPC_neg p)
      from k apk [of k] have "apart b (v ! k)" by simp
      with lt block_start_le_end [of "v ! k"] show "block_end b \<le> block_start (v ! k)"
        by (auto simp: apart_def)
    qed
    from ilen b1 b2 show ?thesis by simp
  next
    case True
    with res have fnd: "i < length v" "?cmp (v ! i) = 0"
      using BinarySearchIf_found [of v 0 "length v" ?cmp i] by simp_all
    then have inside: "block_start (v ! i) \<le> block_start b" "block_start b < block_end (v ! i)"
      using in_order_placed [OF ord, of i] by (simp_all add: CodeBlockPC_zero p)
    from apk [OF fnd(1)] inside block_start_le_end [of b]
    have eq: "block_end b = block_start (v ! i)" "block_start b = block_start (v ! i)"
      by (auto simp: apart_def)
    have b1: "\<forall>k < i. block_end (v ! k) \<le> block_start b"
    proof (intro allI impI)
      fix k assume "k < i"
      from in_order_nth [OF ord this fnd(1)] eq show "block_end (v ! k) \<le> block_start b" by simp
    qed
    have b2: "\<forall>k. i \<le> k \<and> k < length v \<longrightarrow> block_end b \<le> block_start (v ! k)"
    proof (intro allI impI)
      fix k assume k: "i \<le> k \<and> k < length v"
      show "block_end b \<le> block_start (v ! k)"
      proof (cases "k = i")
        case True with eq show ?thesis by simp
      next
        case False
        with k have "i < k" by simp
        from in_order_nth [OF ord this] k block_start_le_end [of "v ! i"] eq
        show ?thesis by simp
      qed
    qed
    from fnd(1) b1 b2 show ?thesis by simp
  qed
qed

lemma in_order_insert:
  assumes ord: "blocks_in_order v" and placed: "block_placed b" and i: "i \<le> length v"
    and before: "\<forall>k < i. block_end (v ! k) \<le> block_start b"
    and after: "\<forall>k. i \<le> k \<and> k < length v \<longrightarrow> block_end b \<le> block_start (v ! k)"
  shows "blocks_in_order (take i v @ b # drop i v)"
proof -
  let ?P = "\<lambda>a b. block_end a \<le> block_start b"
  from ord have s: "sorted_wrt ?P (take i v @ drop i v)" by (simp add: blocks_in_order_def)
  from s [unfolded sorted_wrt_append] have st: "sorted_wrt ?P (take i v)" and sd: "sorted_wrt ?P (drop i v)"
    and cross: "\<forall>x \<in> set (take i v). \<forall>y \<in> set (drop i v). ?P x y"
    by blast+
  have tb: "\<forall>x \<in> set (take i v). ?P x b"
  proof
    fix x assume "x \<in> set (take i v)"
    then obtain k where "k < length (take i v)" "x = take i v ! k" by (auto simp: in_set_conv_nth)
    with before show "?P x b" by simp
  qed
  have bd: "\<forall>y \<in> set (drop i v). ?P b y"
  proof
    fix y assume "y \<in> set (drop i v)"
    then obtain k where k: "k < length (drop i v)" "y = drop i v ! k" by (auto simp: in_set_conv_nth)
    then have "y = v ! (i + k)" "i + k < length v" using i by simp_all
    with after show "?P b y" by simp
  qed
  have "sorted_wrt ?P (take i v @ b # drop i v)"
    using st sd cross tb bd by (simp add: sorted_wrt_append)
  moreover have "\<forall>cb \<in> set (take i v @ b # drop i v). block_placed cb"
    using ord placed by (auto simp: blocks_in_order_def dest: in_set_takeD in_set_dropD)
  ultimately show ?thesis by (simp add: blocks_in_order_def)
qed

lemma in_order_erase:
  assumes ord: "blocks_in_order v"
  shows "blocks_in_order (take i v @ drop (Suc i) v)"
proof -
  let ?P = "\<lambda>a b. block_end a \<le> block_start b"
  from ord have s: "sorted_wrt ?P (take i v @ drop i v)" by (simp add: blocks_in_order_def)
  from s [unfolded sorted_wrt_append] have st: "sorted_wrt ?P (take i v)"
    and cross: "\<forall>x \<in> set (take i v). \<forall>y \<in> set (drop i v). ?P x y"
    by blast+
  from ord have sd: "sorted_wrt ?P (drop (Suc i) v)"
    by (simp add: blocks_in_order_def sorted_wrt_drop)
  have sub: "set (drop (Suc i) v) \<subseteq> set (drop i v)"
    by (rule set_drop_subset_set_drop) simp
  have "sorted_wrt ?P (take i v @ drop (Suc i) v)"
    using st sd cross sub by (auto simp: sorted_wrt_append)
  moreover have "\<forall>cb \<in> set (take i v @ drop (Suc i) v). block_placed cb"
    using ord by (auto simp: blocks_in_order_def dest: in_set_takeD in_set_dropD)
  ultimately show ?thesis by (simp add: blocks_in_order_def)
qed

subsection \<open>The steps of insert and remove\<close>

lemma wait_for_lookups_Some:
  assumes "wait_for_lookups m = Some m'"
  shows "m' = m \<and> numActiveLookups m = 0"
proof (rule wait_for_lookups.raw_induct [where P = "\<lambda>m m'. m' = m \<and> numActiveLookups m = 0"])
  show "wait_for_lookups m = Some m'" by (rule assms)
next
  fix w :: "ThreadSafeCodeBlockMap \<Rightarrow> ThreadSafeCodeBlockMap option" and x y
  assume ih: "\<And>x y. w x = Some y \<Longrightarrow> y = x \<and> numActiveLookups x = 0"
    and step: "(if 0 < numActiveLookups x then w x else Some x) = Some y"
  show "y = x \<and> numActiveLookups x = 0"
  proof (cases "0 < numActiveLookups x")
    case True
    with step have "w x = Some y" by simp
    from ih [OF this] show ?thesis .
  next
    case False
    with step show ?thesis by (simp add: word_greater_zero_iff)
  qed
qed

lemma wait_for_lookups_zero: "numActiveLookups m = 0 \<Longrightarrow> wait_for_lookups m = Some m"
  by (subst wait_for_lookups.simps) simp

lemma swapAndWait_Some:
  "swapAndWait m = Some m' \<longleftrightarrow> numActiveLookups m = 0 \<and> m' = exchange m"
proof
  assume "swapAndWait m = Some m'"
  from wait_for_lookups_Some [OF this [unfolded swapAndWait_def]]
  show "numActiveLookups m = 0 \<and> m' = exchange m" by (simp add: exchange_def)
next
  assume "numActiveLookups m = 0 \<and> m' = exchange m"
  then show "swapAndWait m = Some m'"
    by (simp add: swapAndWait_def wait_for_lookups_zero exchange_def)
qed

lemma lock_Some: "lock m = Some m0 \<longleftrightarrow> \<not> mutatorsMutex m \<and> m0 = m\<lparr>mutatorsMutex := True\<rparr>"
  by (auto simp: lock_def)

lemma deref_assign_same [simp]: "deref (assign m r v) r = v"
  by (cases r) (simp_all add: deref_def assign_def)

lemma deref_assign_other [simp]: "r' \<noteq> r \<Longrightarrow> deref (assign m r v) r' = deref m r'"
  by (cases r; cases r') (simp_all add: deref_def assign_def)

lemma assign_fields [simp]:
  "mutableCodeBlocks (assign m r v) = mutableCodeBlocks m"
  "readonlyCodeBlocks (assign m r v) = readonlyCodeBlocks m"
  "numActiveLookups (assign m r v) = numActiveLookups m"
  "mutatorsMutex (assign m r v) = mutatorsMutex m"
  by (cases r; simp add: assign_def)+

lemma deref_exchange [simp]: "deref (exchange m) r = deref m r"
  by (cases r) (simp_all add: deref_def exchange_def)

lemma exchange_fields [simp]:
  "mutableCodeBlocks (exchange m) = readonlyCodeBlocks m"
  "readonlyCodeBlocks (exchange m) = mutableCodeBlocks m"
  "numActiveLookups (exchange m) = numActiveLookups m"
  "mutatorsMutex (exchange m) = mutatorsMutex m"
  by (simp_all add: exchange_def)

lemma deref_mutex [simp]: "deref (m\<lparr>mutatorsMutex := b\<rparr>) r = deref m r"
  by (cases r) (simp_all add: deref_def)

lemma unlock_fields [simp]:
  "mutableCodeBlocks (unlock m) = mutableCodeBlocks m"
  "readonlyCodeBlocks (unlock m) = readonlyCodeBlocks m"
  "numActiveLookups (unlock m) = numActiveLookups m"
  "mutatorsMutex (unlock m) = False"
  "deref (unlock m) r = deref m r"
  by (simp_all add: unlock_def)

lemma arrays_agree_deref: "arrays_agree m \<Longrightarrow> deref m r = segments1 m"
  by (cases r) (simp_all add: arrays_agree_def deref_def)

lemma arrays_agreeI:
  "deref m Segments1 = deref m Segments2 \<Longrightarrow> mutableCodeBlocks m \<noteq> readonlyCodeBlocks m \<Longrightarrow>
   arrays_agree m"
  by (simp add: arrays_agree_def deref_def)

lemma vector_ref_other: "r \<noteq> r' \<Longrightarrow> r'' \<noteq> r \<Longrightarrow> r'' = (r' :: vector_ref)"
  by (cases r; cases r'; cases r'') simp_all

lemma insert_private_Some:
  assumes "insert_private debug oom1 m cs = Inr (Some (i, m1))"
  shows "\<exists>f. BinarySearchIf (deref m (mutableCodeBlocks m)) 0
              (length (deref m (mutableCodeBlocks m))) (CodeBlockPC (CodeBlock_base cs)) = (f, i) \<and>
             (debug \<longrightarrow> \<not> f) \<and> \<not> oom1 \<and>
             m1 = assign m (mutableCodeBlocks m)
                    (take i (deref m (mutableCodeBlocks m)) @ cs #
                     drop i (deref m (mutableCodeBlocks m)))"
  using assms
  by (auto simp: insert_private_def Let_def seq_Inr_iff MOZ_ASSERT_def Vector_insert_def
      split: prod.splits option.splits if_splits)

lemma insert_private_None: "insert_private debug oom1 m cs = Inr None \<Longrightarrow> oom1"
  by (auto simp: insert_private_def Let_def seq_Inr_iff MOZ_ASSERT_def Vector_insert_def
      split: prod.splits option.splits if_splits)

lemma insert_other_Inr:
  assumes "insert_other debug oom2 m cs i = Inr m3"
  shows "\<not> oom2 \<and>
         m3 = assign m (mutableCodeBlocks m)
                (take i (deref m (mutableCodeBlocks m)) @ cs #
                 drop i (deref m (mutableCodeBlocks m)))"
  using assms
  by (auto simp: insert_other_def Let_def seq_Inr_iff Vector_insert_def
      split: prod.splits option.splits if_splits)

lemma insert_completed:
  assumes run: "CodeBlockMap_insert debug oom1 oom2 m cs = Some (Inr (ok, m'))"
    and agree: "arrays_agree m"
  shows "\<not> mutatorsMutex m \<and>
         (if ok
          then \<exists>f i. BinarySearchIf (visible m) 0 (length (visible m))
                        (CodeBlockPC (CodeBlock_base cs)) = (f, i) \<and>
                 visible m' = take i (visible m) @ cs # drop i (visible m) \<and> arrays_agree m'
          else m' = m)"
proof -
  from run obtain m0 where l: "lock m = Some m0"
    by (auto simp: CodeBlockMap_insert_def Option.bind_eq_Some_conv)
  then have free: "\<not> mutatorsMutex m" and m0: "m0 = m\<lparr>mutatorsMutex := True\<rparr>"
    by (simp_all add: lock_Some)
  from agree have ne: "mutableCodeBlocks m \<noteq> readonlyCodeBlocks m" by (simp add: arrays_agree_def)
  have vis: "\<And>r. deref m r = visible m"
    using arrays_agree_deref [OF agree] by (simp add: visible_def)
  from run l have body:
    "(case insert_private debug oom1 m0 cs of
         Inl e \<Rightarrow> Some (Inl e)
       | Inr None \<Rightarrow> Some (Inr (False, unlock m0))
       | Inr (Some (index, m1)) \<Rightarrow>
           Option.bind (swapAndWait m1) (\<lambda>m2.
             Some (seq (insert_other debug oom2 m2 cs index) (\<lambda>m3.
                   Inr (True, unlock m3))))) = Some (Inr (ok, m'))"
    by (simp add: CodeBlockMap_insert_def)
  show ?thesis
  proof (cases "insert_private debug oom1 m0 cs")
    case (Inl e)
    with body show ?thesis by simp
  next
    case (Inr r)
    show ?thesis
    proof (cases r)
      case None
      with Inr body have "ok = False" "m' = unlock m0" by simp_all
      with m0 free show ?thesis by (simp add: unlock_def)
    next
      case (Some p)
      obtain i m1 where p: "p = (i, m1)" by (cases p)
      from insert_private_Some [OF Inr [unfolded Some p]] obtain f where
        bs: "BinarySearchIf (visible m) 0 (length (visible m)) (CodeBlockPC (CodeBlock_base cs)) = (f, i)"
        and m1: "m1 = assign m0 (mutableCodeBlocks m) (take i (visible m) @ cs # drop i (visible m))"
        using m0 vis by auto
      from body Inr Some p obtain m2 m3 where
        sw: "swapAndWait m1 = Some m2" and
        io: "insert_other debug oom2 m2 cs i = Inr m3" and
        res: "ok = True" "m' = unlock m3"
        by (auto simp: Option.bind_eq_Some_conv seq_Inr_iff)
      from sw have m2: "m2 = exchange m1" by (simp add: swapAndWait_Some)
      let ?ins = "take i (visible m) @ cs # drop i (visible m)"
      have old: "deref m2 (readonlyCodeBlocks m) = visible m"
        using m2 m1 m0 ne vis by simp
      from insert_other_Inr [OF io] have
        m3: "m3 = assign m2 (readonlyCodeBlocks m) ?ins"
        using m2 m1 m0 old by simp
      have d_ro: "deref m' (readonlyCodeBlocks m) = ?ins"
        using res m3 by simp
      have d_mu: "deref m' (mutableCodeBlocks m) = ?ins"
        using res m3 m2 m1 ne by simp
      have ptrs: "mutableCodeBlocks m' = readonlyCodeBlocks m"
        "readonlyCodeBlocks m' = mutableCodeBlocks m"
        using res m3 m2 m1 m0 by simp_all
      have all: "\<And>r. deref m' r = ?ins"
      proof -
        fix r show "deref m' r = ?ins"
        proof (cases "r = mutableCodeBlocks m")
          case True with d_mu show ?thesis by simp
        next
          case False
          from vector_ref_other [OF ne False [symmetric, THEN not_sym]] d_ro
          show ?thesis by (metis False vector_ref.exhaust ne)
        qed
      qed
      have "arrays_agree m'"
        by (rule arrays_agreeI) (use all ptrs ne in auto)
      moreover have "visible m' = ?ins" using all by (simp add: visible_def)
      ultimately show ?thesis using free res bs by auto
    qed
  qed
qed

lemma remove_private_Inr:
  assumes "remove_private debug m cs = Inr (i, n, m1)"
  shows "\<exists>f. BinarySearchIf (deref m (mutableCodeBlocks m)) 0
              (length (deref m (mutableCodeBlocks m))) (CodeBlockPC (CodeBlock_base cs)) = (f, i) \<and>
             (debug \<longrightarrow> f) \<and> i < length (deref m (mutableCodeBlocks m)) \<and>
             n = length (take i (deref m (mutableCodeBlocks m)) @
                         drop (Suc i) (deref m (mutableCodeBlocks m))) \<and>
             m1 = assign m (mutableCodeBlocks m)
                    (take i (deref m (mutableCodeBlocks m)) @
                     drop (Suc i) (deref m (mutableCodeBlocks m)))"
  using assms
  by (auto simp: remove_private_def Let_def seq_Inr_iff MOZ_ASSERT_def Vector_erase_def
      split: prod.splits if_splits)

lemma remove_other_Inr:
  assumes "remove_other debug m cs i = Inr m3"
  shows "i < length (deref m (mutableCodeBlocks m)) \<and>
         m3 = assign m (mutableCodeBlocks m)
                (take i (deref m (mutableCodeBlocks m)) @
                 drop (Suc i) (deref m (mutableCodeBlocks m)))"
  using assms
  by (auto simp: remove_other_def Let_def seq_Inr_iff Vector_erase_def
      split: prod.splits if_splits)

lemma both_vectors:
  assumes ne: "mu \<noteq> ro" and "deref m' ro = v" and "deref m' mu = v"
  shows "deref m' r = v"
  using assms by (cases r; cases mu; cases ro) simp_all

lemma remove_completed:
  assumes run: "CodeBlockMap_remove debug m cs = Some (Inr (n, m'))"
    and agree: "arrays_agree m"
  shows "\<not> mutatorsMutex m \<and>
         (\<exists>f i. BinarySearchIf (visible m) 0 (length (visible m))
                   (CodeBlockPC (CodeBlock_base cs)) = (f, i) \<and> i < length (visible m) \<and>
            visible m' = take i (visible m) @ drop (Suc i) (visible m) \<and>
            arrays_agree m' \<and> n = length (visible m'))"
proof -
  from run obtain m0 where l: "lock m = Some m0"
    by (auto simp: CodeBlockMap_remove_def Option.bind_eq_Some_conv)
  then have free: "\<not> mutatorsMutex m" and m0: "m0 = m\<lparr>mutatorsMutex := True\<rparr>"
    by (simp_all add: lock_Some)
  from agree have ne: "mutableCodeBlocks m \<noteq> readonlyCodeBlocks m" by (simp add: arrays_agree_def)
  have vis: "\<And>r. deref m r = visible m"
    using arrays_agree_deref [OF agree] by (simp add: visible_def)
  from run l have body:
    "(case remove_private debug m0 cs of
         Inl e \<Rightarrow> Some (Inl e)
       | Inr (index, newCodeBlockCount, m1) \<Rightarrow>
           Option.bind (swapAndWait m1) (\<lambda>m2.
             Some (seq (remove_other debug m2 cs index) (\<lambda>m3.
                   Inr (newCodeBlockCount, unlock m3))))) = Some (Inr (n, m'))"
    by (simp add: CodeBlockMap_remove_def)
  show ?thesis
  proof (cases "remove_private debug m0 cs")
    case (Inl e)
    with body show ?thesis by simp
  next
    case (Inr p)
    obtain i k m1 where p: "p = (i, k, m1)" by (cases p)
    let ?del = "take i (visible m) @ drop (Suc i) (visible m)"
    from remove_private_Inr [OF Inr [unfolded p]] obtain f where
      bs: "BinarySearchIf (visible m) 0 (length (visible m)) (CodeBlockPC (CodeBlock_base cs)) = (f, i)"
      and il: "i < length (visible m)"
      and k: "k = length ?del"
      and m1: "m1 = assign m0 (mutableCodeBlocks m) ?del"
      using m0 vis by auto
    from body Inr p obtain m2 m3 where
      sw: "swapAndWait m1 = Some m2" and
      io: "remove_other debug m2 cs i = Inr m3" and
      res: "n = k" "m' = unlock m3"
      by (auto simp: Option.bind_eq_Some_conv seq_Inr_iff)
    from sw have m2: "m2 = exchange m1" by (simp add: swapAndWait_Some)
    have old: "deref m2 (readonlyCodeBlocks m) = visible m"
      using m2 m1 m0 ne vis by simp
    from remove_other_Inr [OF io] have
      m3: "m3 = assign m2 (readonlyCodeBlocks m) ?del"
      using m2 m1 m0 old by simp
    have d_ro: "deref m' (readonlyCodeBlocks m) = ?del"
      using res m3 by simp
    have d_mu: "deref m' (mutableCodeBlocks m) = ?del"
      using res m3 m2 m1 ne by simp
    have ptrs: "mutableCodeBlocks m' = readonlyCodeBlocks m"
      "readonlyCodeBlocks m' = mutableCodeBlocks m"
      using res m3 m2 m1 m0 by simp_all
    have all: "\<And>r. deref m' r = ?del"
      by (rule both_vectors [OF ne d_ro d_mu])
    have "arrays_agree m'"
      by (rule arrays_agreeI) (use all ptrs ne in auto)
    moreover have "visible m' = ?del" using all by (simp add: visible_def)
    ultimately show ?thesis using free res bs il k by auto
  qed
qed

text \<open>An insertion that is not blocked and does not run out of memory returns.\<close>

lemma insert_returns:
  assumes free: "\<not> mutatorsMutex m" and idle: "numActiveLookups m = 0"
    and agree: "arrays_agree m"
    and bs: "BinarySearchIf (visible m) 0 (length (visible m))
               (CodeBlockPC (CodeBlock_base cs)) = (f, i)"
    and ok: "debug \<longrightarrow> \<not> f"
  shows "CodeBlockMap_insert debug False False m cs =
           Some (Inr (True,
             unlock (assign (exchange (assign (m\<lparr>mutatorsMutex := True\<rparr>) (mutableCodeBlocks m)
                        (take i (visible m) @ cs # drop i (visible m))))
                     (readonlyCodeBlocks m) (take i (visible m) @ cs # drop i (visible m)))))"
proof -
  let ?m0 = "m\<lparr>mutatorsMutex := True\<rparr>"
  let ?ins = "take i (visible m) @ cs # drop i (visible m)"
  let ?m1 = "assign ?m0 (mutableCodeBlocks m) ?ins"
  from agree have ne: "mutableCodeBlocks m \<noteq> readonlyCodeBlocks m" by (simp add: arrays_agree_def)
  have vis: "\<And>r. deref m r = visible m"
    using arrays_agree_deref [OF agree] by (simp add: visible_def)
  from BinarySearchIf_bounds [OF _ bs] have il: "i \<le> length (visible m)" by simp
  have l: "lock m = Some ?m0" using free by (simp add: lock_def)
  have ip: "insert_private debug False ?m0 cs = Inr (Some (i, ?m1))"
    using bs ok il by (simp add: insert_private_def vis Vector_insert_def MOZ_ASSERT_def Let_def)
  have sw: "swapAndWait ?m1 = Some (exchange ?m1)"
    using idle by (simp add: swapAndWait_Some)
  have old: "deref ?m1 (readonlyCodeBlocks m) = visible m"
    using ne vis by simp
  have io: "insert_other debug False (exchange ?m1) cs i =
        Inr (assign (exchange ?m1) (readonlyCodeBlocks m) ?ins)"
    using bs ok il by (simp add: insert_other_def old Vector_insert_def MOZ_ASSERT_def Let_def)
  show ?thesis
    by (simp add: CodeBlockMap_insert_def l ip sw io)
qed

subsection \<open>Lookup, insertion and removal on the map\<close>

lemma example_blocks [simp]:
  "block_start block_a = 4096" "block_end block_a = 5376"
  "block_start block_b = 8192" "block_end block_b = 9472"
  "block_start block_c = 12288" "block_end block_c = 13568"
  "block_start block_wide = 4096" "block_end block_wide = 12288"
  by (simp_all add: block_a_def block_b_def block_c_def block_wide_def mk_block_def
      block_start_def block_end_def CodeBlock_base_def CodeBlock_length_def)

lemma example_blocks_placed [simp]:
  "block_placed block_a" "block_placed block_b" "block_placed block_c" "block_placed block_wide"
  by (simp_all add: block_placed_def)

lemma example_bases [simp]:
  "CodeBlock_base block_a = 4096" "CodeBlock_base block_b = 8192"
  "CodeBlock_base block_c = 12288" "CodeBlock_base block_wide = 4096"
  by (simp_all add: block_a_def block_b_def block_c_def block_wide_def mk_block_def
      CodeBlock_base_def)

lemma CodeBlockPC_nat:
  "block_placed cb \<Longrightarrow>
   CodeBlockPC pc cb =
     (if block_start cb \<le> unat pc \<and> unat pc < block_end cb then 0
      else if unat pc < block_start cb then - 1 else 1)"
  by (simp add: CodeBlockPC_def containsCodePC_nat word_less_nat_alt block_start_def)

lemma example_compare [simp]:
  "CodeBlockPC 8704 block_a = 1" "CodeBlockPC 8704 block_b = 0" "CodeBlockPC 8704 block_c = - 1"
  "CodeBlockPC 6144 block_a = 1" "CodeBlockPC 6144 block_b = - 1" "CodeBlockPC 6144 block_c = - 1"
  "CodeBlockPC 4096 block_b = - 1" "CodeBlockPC 8192 block_b = 0"
  by (simp_all add: CodeBlockPC_nat)

lemma search_three [simp]:
  "BinarySearchIf [block_a, block_b, block_c] 0 (Suc (Suc (Suc 0))) (CodeBlockPC 8704) =
     (True, Suc 0)"
  "BinarySearchIf [block_a, block_b, block_c] 0 (Suc (Suc (Suc 0))) (CodeBlockPC 6144) =
     (False, Suc 0)"
  by (simp_all add: BinarySearchIf.simps Let_def)

lemma search_one [simp]:
  "BinarySearchIf [block_b] 0 (Suc 0) (CodeBlockPC 4096) = (False, 0)"
  "BinarySearchIf [block_b] 0 (Suc 0) (CodeBlockPC 8192) = (True, 0)"
  by (simp_all add: BinarySearchIf.simps Let_def)

lemma example_map_visible [simp]: "visible example_map = [block_a, block_b, block_c]"
  by (simp add: visible_def example_map_def deref_def)

lemma one_block_map_visible [simp]: "visible one_block_map = [block_b]"
  by (simp add: visible_def one_block_map_def deref_def)

lemma one_block_map_agree [simp]: "arrays_agree one_block_map"
  by (simp add: arrays_agree_def one_block_map_def)

lemma one_block_map_idle [simp]:
  "\<not> mutatorsMutex one_block_map" "numActiveLookups one_block_map = 0"
  by (simp_all add: one_block_map_def)

lemma lookup_hit:
  "CodeBlockMap_lookup True example_lookupRange example_map 8704 (Some None) =
     Inr (Some block_b, Some (example_lookupRange block_b 8704), example_map)"
  by (simp add: lookup_unfold Let_def example_map_def deref_def)

lemma lookup_gap:
  "CodeBlockMap_lookup True example_lookupRange example_map 6144
       (Some (Some \<lparr>cr_begin = 1, cr_end = 2\<rparr>)) =
     Inr (None, Some None, example_map)"
  by (simp add: lookup_unfold Let_def example_map_def deref_def)

lemma lookup_while_locked:
  "CodeBlockMap_lookup True example_lookupRange (example_map\<lparr>mutatorsMutex := True\<rparr>) 8704 None =
     Inr (Some block_b, None, example_map\<lparr>mutatorsMutex := True\<rparr>)"
  by (simp add: lookup_unfold Let_def example_map_def deref_def)

text \<open>
  Claim C1. In every state of the map and for every program counter, \<^verbatim>\<open>lookup(pc)\<close>
  returns a block of the published vector that contains \<open>pc\<close>, or null; on a miss the
  out-parameter, when the caller gave one, is set to null, on a hit to the block's
  \<^verbatim>\<open>lookupRange(pc)\<close>. The map is left exactly as it was, whether the mutex is held or
  free: the lookup neither takes the mutex nor waits for it. (In a DEBUG build the scope
  guard asserts that the counter of active lookups did not wrap around to zero.)
\<close>

theorem lookup_sound:
  "\<exists>result out.
     CodeBlockMap_lookup debug lookupRange m pc codeRange =
       (if debug \<and> numActiveLookups m + 1 = 0 then Inl DebugAssertion
        else Inr (result, out, m)) \<and>
     (case result of
        None \<Rightarrow> out = map_option (\<lambda>_. None) codeRange
      | Some cb \<Rightarrow>
          cb \<in> set (deref m (readonlyCodeBlocks m)) \<and> containsCodePC cb pc \<and>
          out = map_option (\<lambda>_. lookupRange cb pc) codeRange)"
proof -
  let ?v = "deref m (readonlyCodeBlocks m)"
  obtain found i where r: "BinarySearchIf ?v 0 (length ?v) (CodeBlockPC pc) = (found, i)"
    by (cases "BinarySearchIf ?v 0 (length ?v) (CodeBlockPC pc)")
  show ?thesis
  proof (cases found)
    case True
    with r have "i < length ?v" "CodeBlockPC pc (?v ! i) = 0"
      using BinarySearchIf_found [of ?v 0 "length ?v" "CodeBlockPC pc" i] by simp_all
    then have "?v ! i \<in> set ?v" "containsCodePC (?v ! i) pc"
      by (auto simp: CodeBlockPC_def split: if_splits)
    with r True show ?thesis
      by (intro exI [of _ "Some (?v ! i)"] exI [of _ "map_option (\<lambda>_. lookupRange (?v ! i) pc) codeRange"])
         (simp add: lookup_unfold Let_def)
  next
    case False
    with r show ?thesis
      by (intro exI [of _ None] exI [of _ "map_option (\<lambda>_. None) codeRange"])
         (simp add: lookup_unfold Let_def)
  qed
qed

theorem lookup_sound_witness:
  "CodeBlockMap_lookup True example_lookupRange example_map 8704 (Some None) =
     Inr (Some block_b, Some (example_lookupRange block_b 8704), example_map) \<and>
   containsCodePC block_b 8704 \<and>
   CodeBlockMap_lookup True example_lookupRange example_map 6144
       (Some (Some \<lparr>cr_begin = 1, cr_end = 2\<rparr>)) =
     Inr (None, Some None, example_map) \<and>
   CodeBlockMap_lookup True example_lookupRange (example_map\<lparr>mutatorsMutex := True\<rparr>) 8704 None =
     Inr (Some block_b, None, example_map\<lparr>mutatorsMutex := True\<rparr>)"
proof -
  have nz: "numActiveLookups example_map + 1 \<noteq> 0"
    by (simp add: example_map_def)
  have "containsCodePC block_b 8704"
    using lookup_sound [of True example_lookupRange example_map 8704 "Some None"]
    by (auto simp: lookup_hit nz)
  with lookup_hit lookup_gap lookup_while_locked show ?thesis by simp
qed

lemma new_map_agree: "arrays_agree new_map \<and> blocks_in_order (visible new_map)"
  by (simp add: arrays_agree_def new_map_def visible_def deref_def blocks_in_order_def)

lemma insert_keeps_order:
  assumes ord: "blocks_in_order v" and placed: "block_placed cs"
    and ap: "\<forall>c \<in> set v. apart cs c"
    and bs: "BinarySearchIf v 0 (length v) (CodeBlockPC (CodeBlock_base cs)) = (f, i)"
  shows "blocks_in_order (take i v @ cs # drop i v)"
proof -
  from insertion_point [OF ord ap bs] have
    "i \<le> length v" "\<forall>k < i. block_end (v ! k) \<le> block_start cs"
    "\<forall>k. i \<le> k \<and> k < length v \<longrightarrow> block_end cs \<le> block_start (v ! k)"
    by simp_all
  then show ?thesis by (rule in_order_insert [OF ord placed])
qed

lemma insert_private_visible:
  assumes agree: "arrays_agree m"
    and ip: "insert_private debug oom1 m cs = Inr (Some (i, m1))"
  shows "visible m1 = visible m \<and>
         (\<exists>f. BinarySearchIf (visible m) 0 (length (visible m))
                 (CodeBlockPC (CodeBlock_base cs)) = (f, i) \<and>
               visible (exchange m1) = take i (visible m) @ cs # drop i (visible m))"
proof -
  from agree have ne: "mutableCodeBlocks m \<noteq> readonlyCodeBlocks m" by (simp add: arrays_agree_def)
  have vis: "\<And>r. deref m r = visible m"
    using arrays_agree_deref [OF agree] by (simp add: visible_def)
  from insert_private_Some [OF ip] obtain f where
    bs: "BinarySearchIf (visible m) 0 (length (visible m)) (CodeBlockPC (CodeBlock_base cs)) = (f, i)"
    and m1: "m1 = assign m (mutableCodeBlocks m) (take i (visible m) @ cs # drop i (visible m))"
    using vis by auto
  have "visible m1 = visible m" using m1 ne by (simp add: visible_def)
  moreover have "visible (exchange m1) = take i (visible m) @ cs # drop i (visible m)"
    unfolding m1 by (simp add: visible_def [of "exchange _"])
  ultimately show ?thesis using bs by blast
qed

lemma remove_private_visible:
  assumes agree: "arrays_agree m"
    and rp: "remove_private debug m cs = Inr (i, n, m1)"
  shows "visible m1 = visible m \<and>
         visible (exchange m1) = take i (visible m) @ drop (Suc i) (visible m)"
proof -
  from agree have ne: "mutableCodeBlocks m \<noteq> readonlyCodeBlocks m" by (simp add: arrays_agree_def)
  have vis: "\<And>r. deref m r = visible m"
    using arrays_agree_deref [OF agree] by (simp add: visible_def)
  from remove_private_Inr [OF rp] have
    m1: "m1 = assign m (mutableCodeBlocks m) (take i (visible m) @ drop (Suc i) (visible m))"
    using vis by auto
  have "visible m1 = visible m" using m1 ne by (simp add: visible_def)
  moreover have "visible (exchange m1) = take i (visible m) @ drop (Suc i) (visible m)"
    unfolding m1 by (simp add: visible_def [of "exchange _"])
  ultimately show ?thesis by blast
qed

text \<open>
  Claim C4, as the code has it. A new map has two equal vectors, in order. Every completed
  \<^verbatim>\<open>insert\<close> and every completed \<^verbatim>\<open>remove\<close> leaves the two vectors with the same
  contents. The vector that lookups read stays sorted by base address with ranges that do
  not overlap through every \<^verbatim>\<open>remove\<close>, and through every \<^verbatim>\<open>insert\<close> of a block that
  lies inside the address space and apart from every registered block; this holds after
  the operation and at its two intermediate points, before and after the exchange of the
  pointers.
\<close>

theorem both_vectors_agree_in_order:
  "arrays_agree new_map \<and> blocks_in_order (visible new_map) \<and>
   (\<forall>ok m'. arrays_agree m \<and> CodeBlockMap_insert debug oom1 oom2 m cs = Some (Inr (ok, m')) \<longrightarrow>
      arrays_agree m' \<and>
      (blocks_in_order (visible m) \<and> block_placed cs \<and> (\<forall>c \<in> set (visible m). apart cs c) \<longrightarrow>
         blocks_in_order (visible m'))) \<and>
   (\<forall>n m'. arrays_agree m \<and> CodeBlockMap_remove debug m cs = Some (Inr (n, m')) \<longrightarrow>
      arrays_agree m' \<and> n = length (visible m') \<and>
      (blocks_in_order (visible m) \<longrightarrow> blocks_in_order (visible m'))) \<and>
   (\<forall>i m1. arrays_agree m \<and> blocks_in_order (visible m) \<and> block_placed cs \<and>
        (\<forall>c \<in> set (visible m). apart cs c) \<and>
        insert_private debug oom1 m cs = Inr (Some (i, m1)) \<longrightarrow>
      visible m1 = visible m \<and> blocks_in_order (visible (exchange m1))) \<and>
   (\<forall>i n m1. arrays_agree m \<and> blocks_in_order (visible m) \<and>
        remove_private debug m cs = Inr (i, n, m1) \<longrightarrow>
      visible m1 = visible m \<and> blocks_in_order (visible (exchange m1)))"
proof (intro conjI allI impI)
  show "arrays_agree new_map" "blocks_in_order (visible new_map)"
    using new_map_agree by simp_all
next
  fix ok m'
  assume a: "arrays_agree m \<and> CodeBlockMap_insert debug oom1 oom2 m cs = Some (Inr (ok, m'))"
  then have agree: "arrays_agree m"
    and run: "CodeBlockMap_insert debug oom1 oom2 m cs = Some (Inr (ok, m'))" by simp_all
  note c = insert_completed [OF run agree]
  from c agree show "arrays_agree m'" by (cases ok) auto
  assume b: "blocks_in_order (visible m) \<and> block_placed cs \<and> (\<forall>c \<in> set (visible m). apart cs c)"
  show "blocks_in_order (visible m')"
  proof (cases ok)
    case False
    with c b show ?thesis by simp
  next
    case True
    with c obtain f i where
      bs: "BinarySearchIf (visible m) 0 (length (visible m)) (CodeBlockPC (CodeBlock_base cs)) = (f, i)"
      and v: "visible m' = take i (visible m) @ cs # drop i (visible m)" by auto
    from b have "blocks_in_order (visible m)" "block_placed cs" "\<forall>c \<in> set (visible m). apart cs c"
      by simp_all
    from insert_keeps_order [OF this bs] v show ?thesis by simp
  qed
next
  fix n m'
  assume a: "arrays_agree m \<and> CodeBlockMap_remove debug m cs = Some (Inr (n, m'))"
  then have agree: "arrays_agree m"
    and run: "CodeBlockMap_remove debug m cs = Some (Inr (n, m'))" by simp_all
  note c = remove_completed [OF run agree]
  from c show "arrays_agree m'" by blast
  from c show "n = length (visible m')" by blast
  assume "blocks_in_order (visible m)"
  from in_order_erase [OF this] c show "blocks_in_order (visible m')" by auto
next
  fix i m1
  assume a: "arrays_agree m \<and> blocks_in_order (visible m) \<and> block_placed cs \<and>
        (\<forall>c \<in> set (visible m). apart cs c) \<and>
        insert_private debug oom1 m cs = Inr (Some (i, m1))"
  then have agree: "arrays_agree m" and ip: "insert_private debug oom1 m cs = Inr (Some (i, m1))"
    and b: "blocks_in_order (visible m)" "block_placed cs" "\<forall>c \<in> set (visible m). apart cs c"
    by simp_all
  note c = insert_private_visible [OF agree ip]
  from c show "visible m1 = visible m" by simp
  from c obtain f where
    bs: "BinarySearchIf (visible m) 0 (length (visible m)) (CodeBlockPC (CodeBlock_base cs)) = (f, i)"
    and v: "visible (exchange m1) = take i (visible m) @ cs # drop i (visible m)" by blast
  from insert_keeps_order [OF b bs] v show "blocks_in_order (visible (exchange m1))" by simp
next
  fix i n m1
  assume a: "arrays_agree m \<and> blocks_in_order (visible m) \<and>
        remove_private debug m cs = Inr (i, n, m1)"
  then have agree: "arrays_agree m" and rp: "remove_private debug m cs = Inr (i, n, m1)"
    and b: "blocks_in_order (visible m)" by simp_all
  note c = remove_private_visible [OF agree rp]
  from c show "visible m1 = visible m" by simp
  from in_order_erase [OF b] c show "blocks_in_order (visible (exchange m1))" by simp
qed

lemma swapAndWait_idle: "numActiveLookups m = 0 \<Longrightarrow> swapAndWait m = Some (exchange m)"
  by (simp add: swapAndWait_Some)

lemma example_search_more [simp]:
  "BinarySearchIf [] 0 0 (CodeBlockPC 8192) = (False, 0)"
  "BinarySearchIf [block_a, block_b] 0 (Suc (Suc 0)) (CodeBlockPC 4096) = (True, 0)"
  by (simp_all add: BinarySearchIf.simps Let_def CodeBlockPC_nat)

lemmas run_defs =
  CodeBlockMap_insert_def CodeBlockMap_remove_def lock_def unlock_def insert_private_def
  insert_other_def remove_private_def remove_other_def Vector_insert_def Vector_erase_def
  MOZ_ASSERT_def swapAndWait_idle exchange_def assign_def deref_def Let_def

lemma insert_into_new:
  "CodeBlockMap_insert True False False new_map block_b = Some (Inr (True, one_block_map))"
  by (simp add: run_defs new_map_def one_block_map_def)

lemma insert_first:
  "CodeBlockMap_insert True False False one_block_map block_a = Some (Inr (True, two_block_map))"
  by (simp add: run_defs one_block_map_def two_block_map_def)

lemma insert_wide:
  "CodeBlockMap_insert True False False one_block_map block_wide =
     Some (Inr (True, overlapping_map))"
  by (simp add: run_defs one_block_map_def overlapping_map_def)

lemma remove_first:
  "CodeBlockMap_remove True two_block_map block_a = Some (Inr (1, one_block_map))"
  by (simp add: run_defs one_block_map_def two_block_map_def)

lemma two_block_map_visible [simp]: "visible two_block_map = [block_a, block_b]"
  by (simp add: visible_def two_block_map_def deref_def)

lemma overlapping_map_visible [simp]: "visible overlapping_map = [block_wide, block_b]"
  by (simp add: visible_def overlapping_map_def deref_def)

lemma one_block_in_order [simp]: "blocks_in_order [block_b]"
  by (simp add: blocks_in_order_def)

theorem both_vectors_agree_in_order_witness:
  "arrays_agree one_block_map \<and> blocks_in_order (visible one_block_map) \<and>
   block_placed block_a \<and> apart block_a block_b \<and>
   CodeBlockMap_insert True False False one_block_map block_a = Some (Inr (True, two_block_map)) \<and>
   arrays_agree two_block_map \<and> visible two_block_map = [block_a, block_b] \<and>
   blocks_in_order (visible two_block_map) \<and>
   CodeBlockMap_remove True two_block_map block_a = Some (Inr (1, one_block_map))"
proof -
  have ap: "\<forall>c \<in> set (visible one_block_map). apart block_a c"
    by (simp add: apart_def)
  have pre: "arrays_agree one_block_map" "blocks_in_order (visible one_block_map)"
    "block_placed block_a" by simp_all
  from both_vectors_agree_in_order [of one_block_map True False False block_a] insert_first pre ap
  have "arrays_agree two_block_map \<and> blocks_in_order (visible two_block_map)"
    by blast
  with pre ap insert_first remove_first show ?thesis by (simp add: apart_def)
qed

text \<open>
  The claim C4 as it is written fails: \<^verbatim>\<open>insert\<close> takes a block whose base lies in no
  registered block but whose range covers one. After the second block is inserted into a
  new map, the insertion of the covering block completes, in a DEBUG build too, and the
  vector that lookups read holds two overlapping ranges.
\<close>

theorem insert_overlapping_block:
  "CodeBlockMap_insert True False False new_map block_b = Some (Inr (True, one_block_map)) \<and>
   arrays_agree one_block_map \<and> blocks_in_order (visible one_block_map) \<and>
   CodeBlockMap_insert True False False one_block_map block_wide =
     Some (Inr (True, overlapping_map)) \<and>
   visible overlapping_map = [block_wide, block_b] \<and>
   block_start block_b < block_end block_wide \<and>
   \<not> blocks_in_order (visible overlapping_map)"
  using insert_into_new insert_wide by (simp add: blocks_in_order_def)

lemma unlock_lock: "\<not> mutatorsMutex m \<Longrightarrow> unlock (m\<lparr>mutatorsMutex := True\<rparr>) = m"
  by (cases m) (simp add: unlock_def)

lemma insert_blocked: "mutatorsMutex m \<Longrightarrow> CodeBlockMap_insert debug oom1 oom2 m cs = None"
  by (simp add: CodeBlockMap_insert_def lock_def)

lemma insert_first_oom:
  assumes free: "\<not> mutatorsMutex m"
  shows "CodeBlockMap_insert debug True oom2 m cs =
           (if debug \<and> fst (BinarySearchIf (deref m (mutableCodeBlocks m)) 0
                               (length (deref m (mutableCodeBlocks m)))
                               (CodeBlockPC (CodeBlock_base cs)))
            then Some (Inl DebugAssertion) else Some (Inr (False, m)))"
proof -
  let ?v = "deref m (mutableCodeBlocks m)"
  obtain f i where bs: "BinarySearchIf ?v 0 (length ?v) (CodeBlockPC (CodeBlock_base cs)) = (f, i)"
    by (cases "BinarySearchIf ?v 0 (length ?v) (CodeBlockPC (CodeBlock_base cs))")
  from BinarySearchIf_bounds [OF _ bs] have il: "i \<le> length ?v" by simp
  have l: "lock m = Some (m\<lparr>mutatorsMutex := True\<rparr>)" using free by (simp add: lock_def)
  have ip: "insert_private debug True (m\<lparr>mutatorsMutex := True\<rparr>) cs =
      (if debug \<and> f then Inl DebugAssertion else Inr None)"
    using bs il by (simp add: insert_private_def Let_def Vector_insert_def MOZ_ASSERT_def)
  show ?thesis
    using bs by (simp add: CodeBlockMap_insert_def l ip unlock_lock [OF free])
qed

lemma insert_second_oom_never_returns:
  "CodeBlockMap_insert debug False True m cs \<noteq> Some (Inr (ok, m'))"
proof
  assume run: "CodeBlockMap_insert debug False True m cs = Some (Inr (ok, m'))"
  then obtain m0 where l: "lock m = Some m0"
    by (auto simp: CodeBlockMap_insert_def Option.bind_eq_Some_conv)
  show False
  proof (cases "insert_private debug False m0 cs")
    case (Inl e)
    with run l show ?thesis by (simp add: CodeBlockMap_insert_def)
  next
    case (Inr r)
    show ?thesis
    proof (cases r)
      case None
      with Inr insert_private_None [of debug False m0 cs] show ?thesis by simp
    next
      case (Some p)
      obtain i m1 where p: "p = (i, m1)" by (cases p)
      from run l Inr Some p obtain m2 m3 where
        "insert_other debug True m2 cs i = Inr m3"
        by (auto simp: CodeBlockMap_insert_def Option.bind_eq_Some_conv seq_Inr_iff)
      from insert_other_Inr [OF this] show ?thesis by simp
    qed
  qed
qed

lemma insert_second_oom:
  assumes free: "\<not> mutatorsMutex m" and idle: "numActiveLookups m = 0"
    and agree: "arrays_agree m"
    and ok: "debug \<longrightarrow> \<not> fst (BinarySearchIf (visible m) 0 (length (visible m))
                               (CodeBlockPC (CodeBlock_base cs)))"
  shows "CodeBlockMap_insert debug False True m cs = Some (Inl OOMCrash)"
proof -
  obtain f i where bs: "BinarySearchIf (visible m) 0 (length (visible m))
      (CodeBlockPC (CodeBlock_base cs)) = (f, i)"
    by (cases "BinarySearchIf (visible m) 0 (length (visible m)) (CodeBlockPC (CodeBlock_base cs))")
  with ok have nf: "debug \<longrightarrow> \<not> f" by simp
  let ?m0 = "m\<lparr>mutatorsMutex := True\<rparr>"
  let ?ins = "take i (visible m) @ cs # drop i (visible m)"
  let ?m1 = "assign ?m0 (mutableCodeBlocks m) ?ins"
  from agree have ne: "mutableCodeBlocks m \<noteq> readonlyCodeBlocks m" by (simp add: arrays_agree_def)
  have vis: "\<And>r. deref m r = visible m"
    using arrays_agree_deref [OF agree] by (simp add: visible_def)
  from BinarySearchIf_bounds [OF _ bs] have il: "i \<le> length (visible m)" by simp
  have l: "lock m = Some ?m0" using free by (simp add: lock_def)
  have ip: "insert_private debug False ?m0 cs = Inr (Some (i, ?m1))"
    using bs nf il by (simp add: insert_private_def vis Vector_insert_def MOZ_ASSERT_def Let_def)
  have sw: "swapAndWait ?m1 = Some (exchange ?m1)"
    using idle by (simp add: swapAndWait_Some)
  have old: "deref ?m1 (readonlyCodeBlocks m) = visible m"
    using ne vis by simp
  have io: "insert_other debug True (exchange ?m1) cs i = Inl OOMCrash"
    using bs nf il by (simp add: insert_other_def old Vector_insert_def MOZ_ASSERT_def Let_def)
  show ?thesis
    by (simp add: CodeBlockMap_insert_def l ip sw io)
qed

text \<open>
  Claim C5. When the insertion into the private vector cannot allocate, \<^verbatim>\<open>insert\<close>
  returns false and the whole map, the published vector with it, is as before: nothing
  was exchanged. (In a DEBUG build the assertion on the search comes first.) When the
  first insertion succeeds and the second one cannot allocate, \<^verbatim>\<open>insert\<close> never
  returns a result; on a map at rest it ends in the crash of the OOM-unsafe region.
\<close>

theorem insert_allocation_failure:
  "(\<not> mutatorsMutex m \<longrightarrow>
      CodeBlockMap_insert debug True oom2 m cs =
        (if debug \<and> fst (BinarySearchIf (deref m (mutableCodeBlocks m)) 0
                            (length (deref m (mutableCodeBlocks m)))
                            (CodeBlockPC (CodeBlock_base cs)))
         then Some (Inl DebugAssertion) else Some (Inr (False, m)))) \<and>
   (\<forall>ok m'. CodeBlockMap_insert debug False True m cs \<noteq> Some (Inr (ok, m'))) \<and>
   (\<not> mutatorsMutex m \<and> numActiveLookups m = 0 \<and> arrays_agree m \<and>
    (debug \<longrightarrow> \<not> fst (BinarySearchIf (visible m) 0 (length (visible m))
                        (CodeBlockPC (CodeBlock_base cs)))) \<longrightarrow>
      CodeBlockMap_insert debug False True m cs = Some (Inl OOMCrash))"
  using insert_first_oom [of m debug oom2 cs] insert_second_oom_never_returns [of debug m cs]
    insert_second_oom [of m debug cs]
  by blast

theorem insert_allocation_failure_witness:
  "\<not> mutatorsMutex one_block_map \<and> numActiveLookups one_block_map = 0 \<and>
   arrays_agree one_block_map \<and>
   BinarySearchIf (visible one_block_map) 0 (length (visible one_block_map))
     (CodeBlockPC (CodeBlock_base block_a)) = (False, 0) \<and>
   CodeBlockMap_insert True True False one_block_map block_a = Some (Inr (False, one_block_map)) \<and>
   CodeBlockMap_insert True False True one_block_map block_a = Some (Inl OOMCrash)"
proof -
  have bs: "BinarySearchIf (visible one_block_map) 0 (length (visible one_block_map))
     (CodeBlockPC (CodeBlock_base block_a)) = (False, 0)" by simp
  have bs': "BinarySearchIf (deref one_block_map (mutableCodeBlocks one_block_map)) 0
     (length (deref one_block_map (mutableCodeBlocks one_block_map)))
     (CodeBlockPC (CodeBlock_base block_a)) = (False, 0)"
    by (simp add: one_block_map_def deref_def)
  from insert_allocation_failure [of one_block_map True False block_a] bs bs'
  show ?thesis by simp
qed

subsection \<open>Blocking, and the completeness of lookup\<close>

lemma wait_for_lookups_active:
  "numActiveLookups m \<noteq> 0 \<Longrightarrow> wait_for_lookups m = None"
  using wait_for_lookups_Some [of m] by (cases "wait_for_lookups m") auto

lemma remove_blocked: "mutatorsMutex m \<Longrightarrow> CodeBlockMap_remove debug m cs = None"
  by (simp add: CodeBlockMap_remove_def lock_def)

lemma insert_waits_for_lookups:
  assumes "numActiveLookups m \<noteq> 0"
  shows "CodeBlockMap_insert debug False oom2 m cs \<noteq> Some (Inr (ok, m'))"
proof
  assume run: "CodeBlockMap_insert debug False oom2 m cs = Some (Inr (ok, m'))"
  then obtain m0 where l: "lock m = Some m0"
    by (auto simp: CodeBlockMap_insert_def Option.bind_eq_Some_conv)
  then have m0: "m0 = m\<lparr>mutatorsMutex := True\<rparr>" by (simp add: lock_Some)
  show False
  proof (cases "insert_private debug False m0 cs")
    case (Inl e)
    with run l show ?thesis by (simp add: CodeBlockMap_insert_def)
  next
    case (Inr r)
    show ?thesis
    proof (cases r)
      case None
      with Inr insert_private_None [of debug False m0 cs] show ?thesis by simp
    next
      case (Some p)
      obtain i m1 where p: "p = (i, m1)" by (cases p)
      from run l Inr Some p obtain m2 where sw: "swapAndWait m1 = Some m2"
        by (auto simp: CodeBlockMap_insert_def Option.bind_eq_Some_conv)
      from insert_private_Some [OF Inr [unfolded Some p]] m0
      have "numActiveLookups m1 = numActiveLookups m" by auto
      with sw assms show ?thesis by (simp add: swapAndWait_Some)
    qed
  qed
qed

text \<open>
  On a vector in order the search misses no block: a program counter inside a registered
  block is found, and the block found is that one.
\<close>

lemma lookup_complete:
  assumes ord: "blocks_in_order (visible m)"
    and cb: "cb \<in> set (visible m)" and inside: "containsCodePC cb pc"
    and counter: "\<not> (debug \<and> numActiveLookups m + 1 = 0)"
  shows "CodeBlockMap_lookup debug lookupRange m pc codeRange =
           Inr (Some cb, map_option (\<lambda>_. lookupRange cb pc) codeRange, m)"
proof -
  let ?v = "visible m"
  let ?cmp = "CodeBlockPC pc"
  from cb obtain k where k: "k < length ?v" "?v ! k = cb" by (auto simp: in_set_conv_nth)
  have zero_k: "block_start (?v ! k) \<le> unat pc" "unat pc < block_end (?v ! k)"
    using inside k in_order_placed [OF ord k(1)] by (simp_all add: containsCodePC_nat)
  obtain f i where bs: "BinarySearchIf ?v 0 (length ?v) ?cmp = (f, i)"
    by (cases "BinarySearchIf ?v 0 (length ?v) ?cmp")
  have found: f
  proof (rule ccontr)
    assume "\<not> f"
    with bs have r: "BinarySearchIf ?v 0 (length ?v) ?cmp = (False, i)" by simp
    have mp: "\<forall>j k. j < k \<and> k < length ?v \<and> ?cmp (?v ! k) > 0 \<longrightarrow> ?cmp (?v ! j) > 0"
    proof (intro allI impI)
      fix j k assume a: "j < k \<and> k < length ?v \<and> ?cmp (?v ! k) > 0"
      then have "block_end (?v ! k) \<le> unat pc"
        using in_order_placed [OF ord, of k] by (simp add: CodeBlockPC_pos)
      moreover have "block_end (?v ! j) \<le> block_start (?v ! k)"
        using a in_order_nth [OF ord, of j k] by simp
      moreover have "block_start (?v ! k) \<le> block_end (?v ! k)" by (rule block_start_le_end)
      ultimately have "block_end (?v ! j) \<le> unat pc" by linarith
      then show "?cmp (?v ! j) > 0"
        using a in_order_placed [OF ord, of j] by (simp add: CodeBlockPC_pos)
    qed
    have mn: "\<forall>j k. j < k \<and> k < length ?v \<and> ?cmp (?v ! j) < 0 \<longrightarrow> ?cmp (?v ! k) < 0"
    proof (intro allI impI)
      fix j k assume a: "j < k \<and> k < length ?v \<and> ?cmp (?v ! j) < 0"
      then have "unat pc < block_start (?v ! j)"
        using in_order_placed [OF ord, of j] by (simp add: CodeBlockPC_neg)
      moreover have "block_end (?v ! j) \<le> block_start (?v ! k)"
        using a in_order_nth [OF ord, of j k] by simp
      moreover have "block_start (?v ! j) \<le> block_end (?v ! j)" by (rule block_start_le_end)
      ultimately have "unat pc < block_start (?v ! k)" by linarith
      then show "?cmp (?v ! k) < 0"
        using a in_order_placed [OF ord, of k] by (simp add: CodeBlockPC_neg)
    qed
    have "(\<forall>k < i. ?cmp (?v ! k) > 0) \<and> (\<forall>k. i \<le> k \<and> k < length ?v \<longrightarrow> ?cmp (?v ! k) < 0)"
      by (rule BinarySearchIf_not_found [OF mp mn _ _ _ _ r]) simp_all
    then have lo: "\<And>j. j < i \<Longrightarrow> ?cmp (?v ! j) > 0"
      and hi: "\<And>j. i \<le> j \<Longrightarrow> j < length ?v \<Longrightarrow> ?cmp (?v ! j) < 0" by simp_all
    have "?cmp (?v ! k) \<noteq> 0"
    proof (cases "k < i")
      case True
      from lo [OF this] show ?thesis by simp
    next
      case False
      then have "i \<le> k" by simp
      from hi [OF this k(1)] show ?thesis by simp
    qed
    moreover have "?cmp (?v ! k) = 0"
      using zero_k in_order_placed [OF ord k(1)] by (simp add: CodeBlockPC_zero)
    ultimately show False by simp
  qed
  with bs have fi: "i < length ?v" "?cmp (?v ! i) = 0"
    using BinarySearchIf_found [of ?v 0 "length ?v" ?cmp i] by simp_all
  then have zero_i: "block_start (?v ! i) \<le> unat pc" "unat pc < block_end (?v ! i)"
    using in_order_placed [OF ord fi(1)] by (simp_all add: CodeBlockPC_zero)
  have "i = k"
  proof (rule ccontr)
    assume "i \<noteq> k"
    then consider "i < k" | "k < i" by linarith
    then show False
    proof cases
      case 1
      from in_order_nth [OF ord 1 k(1)] zero_i zero_k show False by linarith
    next
      case 2
      from in_order_nth [OF ord 2 fi(1)] zero_i zero_k show False by linarith
    qed
  qed
  with k have "?v ! i = cb" by simp
  with bs found counter show ?thesis
    by (simp add: lookup_unfold Let_def visible_def [symmetric])
qed

subsection \<open>Initialized code blocks\<close>



lemma assertAllInitialized_release: "assertAllInitialized False m = Inr ()"
  by (simp add: assertAllInitialized_def)






subsection \<open>The tier-2 protocol\<close>

lemma tier2_step_Some:
  "tier2_step s w = Some s' \<longleftrightarrow>
     \<not> hasTier2 s \<and>
     ((\<exists>block. w = InstallTier2 block \<and> tier2 s = 0 \<and> block \<noteq> 0 \<and> s' = s\<lparr>tier2 := block\<rparr>) \<or>
      (w = PublishTier2 \<and> tier2 s \<noteq> 0 \<and> s' = s\<lparr>hasTier2 := True\<rparr>))"
  by (cases w) auto

lemma published_is_final: "hasTier2 s \<Longrightarrow> tier2_step s w = None"
  by (cases w) simp_all

lemma published_trace: "hasTier2 s \<Longrightarrow> tier2_trace s ws = Some tr \<Longrightarrow> ws = [] \<and> tr = [s]"
  by (cases ws) (auto simp: published_is_final)

lemma building_trace:
  assumes "\<not> hasTier2 s" and "tier2 s \<noteq> 0" and "tier2_trace s ws = Some tr"
  shows "(ws = [] \<and> tr = [s]) \<or> (ws = [PublishTier2] \<and> tr = [s, s\<lparr>hasTier2 := True\<rparr>])"
proof (cases ws)
  case Nil
  with assms show ?thesis by simp
next
  case (Cons w ws')
  with assms obtain s' tr' where st: "tier2_step s w = Some s'"
    and rest: "tier2_trace s' ws' = Some tr'" and tr: "tr = s # tr'"
    by (auto split: option.splits)
  from st assms have w: "w = PublishTier2" and s': "s' = s\<lparr>hasTier2 := True\<rparr>"
    by (auto simp: tier2_step_Some)
  from s' have "hasTier2 s'" by simp
  from published_trace [OF this rest] Cons w s' tr show ?thesis by simp
qed

lemma absent_trace:
  assumes "tier2_trace new_tier2 ws = Some tr"
  shows "(ws = [] \<and> tr = [new_tier2]) \<or>
         (\<exists>block. block \<noteq> 0 \<and>
            ((ws = [InstallTier2 block] \<and>
              tr = [new_tier2, \<lparr>tier2 = block, hasTier2 = False\<rparr>]) \<or>
             (ws = [InstallTier2 block, PublishTier2] \<and>
              tr = [new_tier2, \<lparr>tier2 = block, hasTier2 = False\<rparr>,
                    \<lparr>tier2 = block, hasTier2 = True\<rparr>])))"
proof (cases ws)
  case Nil
  with assms show ?thesis by simp
next
  case (Cons w ws')
  with assms obtain s' tr' where st: "tier2_step new_tier2 w = Some s'"
    and rest: "tier2_trace s' ws' = Some tr'" and tr: "tr = new_tier2 # tr'"
    by (auto split: option.splits)
  from st obtain block where w: "w = InstallTier2 block" and nz: "block \<noteq> 0"
    and s': "s' = \<lparr>tier2 = block, hasTier2 = False\<rparr>"
    by (auto simp: tier2_step_Some new_tier2_def)
  from s' nz have "\<not> hasTier2 s'" "tier2 s' \<noteq> 0" by simp_all
  from building_trace [OF this rest] Cons w s' tr nz show ?thesis by auto
qed

lemma only_last_published:
  assumes "\<And>k. k < length tr \<Longrightarrow> hasTier2 (tr ! k) \<Longrightarrow> Suc k = length tr"
  shows "\<forall>i j. i \<le> j \<and> j < length tr \<and> hasTier2 (tr ! i) \<longrightarrow>
           hasTier2 (tr ! j) \<and> tier2 (tr ! j) = tier2 (tr ! i)"
proof (intro allI impI)
  fix i j assume h: "i \<le> j \<and> j < length tr \<and> hasTier2 (tr ! i)"
  then have "i < length tr" by simp
  from assms [OF this] h have "j = i" by simp
  with h show "hasTier2 (tr ! j) \<and> tier2 (tr ! j) = tier2 (tr ! i)" by simp
qed

text \<open>
  Claim C3. Along every sequence of writes from the initial state, the pair
  (\<^verbatim>\<open>tier2_\<close>, \<^verbatim>\<open>hasTier2_\<close>) passes through an initial part of Absent, Building,
  Published, in this order; \<^verbatim>\<open>hasTier2_\<close> changes at most once and, once true, stays
  true with \<^verbatim>\<open>tier2_\<close> unchanged; there are at most two writes, so that a module tiers
  up once or never. In a state with \<^verbatim>\<open>hasTier2_\<close> true no write is a transition.
\<close>

theorem tier2_protocol:
  "tier2_trace new_tier2 ws = Some tr \<Longrightarrow>
     map phase_of tr = map Some (take (length tr) [Absent, Building, Published]) \<and>
     length ws \<le> 2 \<and> hasTier2_changes tr \<le> 1 \<and>
     (\<forall>i j. i \<le> j \<and> j < length tr \<and> hasTier2 (tr ! i) \<longrightarrow>
        hasTier2 (tr ! j) \<and> tier2 (tr ! j) = tier2 (tr ! i)) \<and>
     (\<forall>s w. hasTier2 s \<longrightarrow> tier2_step s w = None)"
proof -
  assume a: "tier2_trace new_tier2 ws = Some tr"
  have final: "\<forall>s w. hasTier2 s \<longrightarrow> tier2_step s w = None"
    by (simp add: published_is_final)
  from absent_trace [OF a] consider
    (none) "ws = []" "tr = [new_tier2]"
  | (building) block where "block \<noteq> 0" "ws = [InstallTier2 block]"
      "tr = [new_tier2, \<lparr>tier2 = block, hasTier2 = False\<rparr>]"
  | (published) block where "block \<noteq> 0" "ws = [InstallTier2 block, PublishTier2]"
      "tr = [new_tier2, \<lparr>tier2 = block, hasTier2 = False\<rparr>, \<lparr>tier2 = block, hasTier2 = True\<rparr>]"
    by blast
  then show ?thesis
  proof cases
    case none
    have "\<forall>i j. i \<le> j \<and> j < length tr \<and> hasTier2 (tr ! i) \<longrightarrow>
        hasTier2 (tr ! j) \<and> tier2 (tr ! j) = tier2 (tr ! i)"
      by (rule only_last_published) (use none in \<open>simp add: new_tier2_def\<close>)
    then have mono: "\<forall>i j. i \<le> j \<and> j < length tr \<and> hasTier2 (tr ! i) \<longrightarrow>
        hasTier2 (tr ! j) \<and> tier2 (tr ! j) = tier2 (tr ! i)" .
    have p1: "map phase_of tr = map Some (take (length tr) [Absent, Building, Published])"
      using none by (simp add: phase_of_def new_tier2_def)
    have p2: "length ws \<le> 2" using none by simp
    have p3: "hasTier2_changes tr \<le> 1" using none by (simp add: new_tier2_def)
    from p1 p2 p3 mono final show ?thesis by blast
  next
    case building
    have "\<forall>i j. i \<le> j \<and> j < length tr \<and> hasTier2 (tr ! i) \<longrightarrow>
        hasTier2 (tr ! j) \<and> tier2 (tr ! j) = tier2 (tr ! i)"
      by (rule only_last_published)
         (use building in \<open>auto simp: new_tier2_def less_Suc_eq nth_Cons'\<close>)
    then have mono: "\<forall>i j. i \<le> j \<and> j < length tr \<and> hasTier2 (tr ! i) \<longrightarrow>
        hasTier2 (tr ! j) \<and> tier2 (tr ! j) = tier2 (tr ! i)" .
    have p1: "map phase_of tr = map Some (take (length tr) [Absent, Building, Published])"
      using building by (simp add: phase_of_def new_tier2_def)
    have p2: "length ws \<le> 2" using building by simp
    have p3: "hasTier2_changes tr \<le> 1" using building by (simp add: new_tier2_def)
    from p1 p2 p3 mono final show ?thesis by blast
  next
    case published
    have "\<forall>i j. i \<le> j \<and> j < length tr \<and> hasTier2 (tr ! i) \<longrightarrow>
        hasTier2 (tr ! j) \<and> tier2 (tr ! j) = tier2 (tr ! i)"
      by (rule only_last_published)
         (use published in \<open>auto simp: new_tier2_def less_Suc_eq nth_Cons'\<close>)
    then have mono: "\<forall>i j. i \<le> j \<and> j < length tr \<and> hasTier2 (tr ! i) \<longrightarrow>
        hasTier2 (tr ! j) \<and> tier2 (tr ! j) = tier2 (tr ! i)" .
    have p1: "map phase_of tr = map Some (take (length tr) [Absent, Building, Published])"
      using published by (simp add: phase_of_def new_tier2_def)
    have p2: "length ws \<le> 2" using published by simp
    have p3: "hasTier2_changes tr \<le> 1" using published by (simp add: new_tier2_def)
    from p1 p2 p3 mono final show ?thesis by blast
  qed
qed

theorem tier2_protocol_witness:
  "tier2_trace new_tier2 [InstallTier2 4096, PublishTier2] =
     Some [new_tier2, \<lparr>tier2 = 4096, hasTier2 = False\<rparr>, \<lparr>tier2 = 4096, hasTier2 = True\<rparr>] \<and>
   map phase_of [new_tier2, \<lparr>tier2 = 4096, hasTier2 = False\<rparr>, \<lparr>tier2 = 4096, hasTier2 = True\<rparr>] =
     [Some Absent, Some Building, Some Published] \<and>
   hasTier2_changes
     [new_tier2, \<lparr>tier2 = 4096, hasTier2 = False\<rparr>, \<lparr>tier2 = 4096, hasTier2 = True\<rparr>] = 1 \<and>
   tier2_step \<lparr>tier2 = 4096, hasTier2 = True\<rparr> (InstallTier2 8192) = None \<and>
   tier2_step \<lparr>tier2 = 4096, hasTier2 = True\<rparr> PublishTier2 = None \<and>
   tier2_trace new_tier2 [InstallTier2 4096, PublishTier2, InstallTier2 8192] = None"
proof -
  have run: "tier2_trace new_tier2 [InstallTier2 4096, PublishTier2] =
     Some [new_tier2, \<lparr>tier2 = 4096, hasTier2 = False\<rparr>, \<lparr>tier2 = 4096, hasTier2 = True\<rparr>]"
    by (simp add: new_tier2_def)
  have changes: "hasTier2_changes
     [new_tier2, \<lparr>tier2 = 4096, hasTier2 = False\<rparr>, \<lparr>tier2 = 4096, hasTier2 = True\<rparr>] = 1"
    by (simp add: new_tier2_def)
  have stuck: "tier2_trace new_tier2 [InstallTier2 4096, PublishTier2, InstallTier2 8192] = None"
    by (simp add: new_tier2_def)
  from tier2_protocol [OF run] have
    "map phase_of [new_tier2, \<lparr>tier2 = 4096, hasTier2 = False\<rparr>, \<lparr>tier2 = 4096, hasTier2 = True\<rparr>] =
       [Some Absent, Some Building, Some Published]"
    and "tier2_step \<lparr>tier2 = 4096, hasTier2 = True\<rparr> (InstallTier2 8192) = None"
    and "tier2_step \<lparr>tier2 = 4096, hasTier2 = True\<rparr> PublishTier2 = None"
    by simp_all
  with run changes stuck show ?thesis by simp
qed

subsection \<open>Linking and unlinking\<close>

lemma length_ptr_bytes [simp]: "length (ptr_bytes p) = 8"
  by (simp add: ptr_bytes_def)

lemma apply_patches_append:
  "apply_patches (ps @ qs) buf = apply_patches qs (apply_patches ps buf)"
  by (induction ps arbitrary: buf) auto

lemma unlink_internal_patches:
  "unlink_internal ls buf =
     apply_patches (map (\<lambda>l. (patchAtOffset l, ucast (targetOffset l))) ls) buf"
  by (induction ls arbitrary: buf) simp_all

lemma patch_all_patches:
  "patch_all p offsets buf = apply_patches (map (\<lambda>offset. (offset, p)) offsets) buf"
  by (induction offsets arbitrary: buf) simp_all

lemma unlink_symbolic_patches:
  "unlink_symbolic placeholder imm vs buf = apply_patches (symbolic_sites placeholder imm vs) buf"
  by (induction vs arbitrary: imm buf) (simp_all add: patch_all_patches apply_patches_append)

lemma StaticallyUnlink_patches:
  "StaticallyUnlink placeholder base_addr buf linkData =
     apply_patches (unlinked_sites placeholder linkData) buf"
  by (simp add: StaticallyUnlink_def unlinked_sites_def unlink_internal_patches
      unlink_symbolic_patches apply_patches_append)

lemma covered_Cons:
  "covered (offset # offsets) a \<longleftrightarrow>
     (unat offset \<le> a \<and> a < unat offset + 8) \<or> covered offsets a"
  by (simp add: covered_def)

lemma covered_append: "covered (xs @ ys) a \<longleftrightarrow> covered xs a \<or> covered ys a"
  by (simp add: covered_def list_ex_iff) blast

lemma covered_Nil [simp]: "\<not> covered [] a"
  by (simp add: covered_def)

lemma patch_outside:
  "\<not> (unat offset \<le> a \<and> a < unat offset + 8) \<Longrightarrow> patch buf offset p a = buf a"
  by (auto simp: patch_def write_bytes_def)

lemma patch_inside:
  "unat offset \<le> a \<Longrightarrow> a < unat offset + 8 \<Longrightarrow>
   patch buf offset p a = ptr_bytes p ! (a - unat offset)"
  by (simp add: patch_def write_bytes_def)

lemma read_bytes_nth:
  "at \<le> a \<Longrightarrow> a < at + n \<Longrightarrow> read_bytes buf at n ! (a - at) = buf a"
  by (simp add: read_bytes_def)

lemma apply_patches_outside:
  "\<not> covered (map fst ps) a \<Longrightarrow> apply_patches ps buf a = buf a"
  by (induction ps arbitrary: buf) (auto simp: covered_Cons patch_outside)

text \<open>Linking writes inside the patch sites only.\<close>

lemma link_internal_outside:
  "\<not> covered (map patchAtOffset ls) a \<Longrightarrow> link_internal base_addr ls buf a = buf a"
  by (induction ls arbitrary: buf) (auto simp: covered_Cons patch_outside)

lemma patch_all_outside:
  "\<not> covered offsets a \<Longrightarrow> patch_all p offsets buf a = buf a"
  by (induction offsets arbitrary: buf) (auto simp: covered_Cons patch_outside)

lemma link_symbolic_outside:
  "link_symbolic symbolTarget imm vs buf = (ok, buf') \<Longrightarrow> \<not> covered (concat vs) a \<Longrightarrow>
   buf' a = buf a"
proof (induction vs arbitrary: imm buf)
  case Nil
  then show ?case by simp
next
  case (Cons offsets rest)
  show ?case
  proof (cases "symbolTarget imm")
    case None
    with Cons.prems show ?thesis by simp
  next
    case (Some p)
    with Cons.prems have
      r: "link_symbolic symbolTarget (Suc imm) rest (patch_all p offsets buf) = (ok, buf')"
      by simp
    from Cons.prems(2) have n1: "\<not> covered offsets a" and n2: "\<not> covered (concat rest) a"
      by (simp_all add: covered_append)
    from Cons.IH [OF r n2] patch_all_outside [OF n1] show ?thesis by simp
  qed
qed

lemma symbolic_sites_offsets: "map fst (symbolic_sites placeholder imm vs) = concat vs"
  by (induction vs arbitrary: imm) (simp_all add: comp_def)

lemma unlinked_sites_offsets:
  "map fst (unlinked_sites placeholder linkData) =
     map patchAtOffset (internalLinks linkData) @ concat (symbolicLinks linkData)"
  by (simp add: unlinked_sites_def symbolic_sites_offsets comp_def)

lemma StaticallyLink_outside:
  assumes "StaticallyLink symbolTarget base_addr buf linkData = (ok, buf')"
    and "\<not> covered (map fst (unlinked_sites placeholder linkData)) a"
  shows "buf' a = buf a"
proof -
  from assms(2) have n1: "\<not> covered (map patchAtOffset (internalLinks linkData)) a"
    and n2: "\<not> covered (concat (symbolicLinks linkData)) a"
    by (simp_all add: unlinked_sites_offsets covered_append)
  from link_symbolic_outside [OF assms(1) [unfolded StaticallyLink_def] n2]
    link_internal_outside [OF n1]
  show ?thesis by simp
qed

text \<open>Patches that write what a buffer holds at their sites restore that buffer.\<close>

lemma apply_patches_restore:
  assumes "list_all (\<lambda>(offset, p). read_bytes orig (unat offset) 8 = ptr_bytes p) ps"
    and "\<forall>a. \<not> covered (map fst ps) a \<longrightarrow> buf a = orig a"
  shows "apply_patches ps buf = orig"
  using assms
proof (induction ps arbitrary: buf)
  case Nil
  then show ?case by (simp add: fun_eq_iff)
next
  case (Cons x ps)
  obtain offset p where x: "x = (offset, p)" by (cases x)
  from Cons.prems(1) x have here: "read_bytes orig (unat offset) 8 = ptr_bytes p"
    and rest: "list_all (\<lambda>(offset, p). read_bytes orig (unat offset) 8 = ptr_bytes p) ps"
    by simp_all
  have "\<forall>a. \<not> covered (map fst ps) a \<longrightarrow> patch buf offset p a = orig a"
  proof (intro allI impI)
    fix a assume nc: "\<not> covered (map fst ps) a"
    show "patch buf offset p a = orig a"
    proof (cases "unat offset \<le> a \<and> a < unat offset + 8")
      case True
      then have "patch buf offset p a = ptr_bytes p ! (a - unat offset)"
        by (simp add: patch_inside)
      also have "\<dots> = read_bytes orig (unat offset) 8 ! (a - unat offset)"
        by (simp only: here)
      also have "\<dots> = orig a" using True by (simp add: read_bytes_nth)
      finally show ?thesis .
    next
      case False
      with nc x have "\<not> covered (map fst (x # ps)) a" by (simp add: covered_Cons)
      with Cons.prems(2) have "buf a = orig a" by blast
      with False show ?thesis by (simp add: patch_outside)
    qed
  qed
  from Cons.IH [OF rest this] x show ?case by simp
qed

lemma link_symbolic_succeeds:
  "\<forall>k < length vs. symbolTarget (imm + k) \<noteq> None \<Longrightarrow>
   fst (link_symbolic symbolTarget imm vs buf)"
proof (induction vs arbitrary: imm buf)
  case Nil
  then show ?case by simp
next
  case (Cons offsets rest)
  from Cons.prems have "symbolTarget (imm + 0) \<noteq> None" by blast
  then obtain p where p: "symbolTarget imm = Some p" by auto
  have "\<forall>k < length rest. symbolTarget (Suc imm + k) \<noteq> None"
  proof (intro allI impI)
    fix k assume "k < length rest"
    then have "Suc k < length (offsets # rest)" by simp
    with Cons.prems have "symbolTarget (imm + Suc k) \<noteq> None" by blast
    then show "symbolTarget (Suc imm + k) \<noteq> None" by simp
  qed
  from Cons.IH [OF this] p show ?case by simp
qed

lemma read_bytes_patch_same: "read_bytes (patch buf offset p) (unat offset) 8 = ptr_bytes p"
proof (rule nth_equalityI)
  show "length (read_bytes (patch buf offset p) (unat offset) 8) = length (ptr_bytes p)"
    by (simp add: read_bytes_def)
next
  fix k assume "k < length (read_bytes (patch buf offset p) (unat offset) 8)"
  then have k: "k < 8" by (simp add: read_bytes_def)
  then have "read_bytes (patch buf offset p) (unat offset) 8 ! k = patch buf offset p (unat offset + k)"
    by (simp add: read_bytes_def)
  also have "\<dots> = ptr_bytes p ! k" using k by (simp add: patch_inside)
  finally show "read_bytes (patch buf offset p) (unat offset) 8 ! k = ptr_bytes p ! k" .
qed

lemma read_bytes_patch_other:
  assumes "unat offset' + 8 \<le> at \<or> at + 8 \<le> unat offset'"
  shows "read_bytes (patch buf offset' p) at 8 = read_bytes buf at 8"
proof (rule nth_equalityI)
  show "length (read_bytes (patch buf offset' p) at 8) = length (read_bytes buf at 8)"
    by (simp add: read_bytes_def)
next
  fix k assume "k < length (read_bytes (patch buf offset' p) at 8)"
  then have k: "k < 8" by (simp add: read_bytes_def)
  with assms have "\<not> (unat offset' \<le> at + k \<and> at + k < unat offset' + 8)" by linarith
  then have "patch buf offset' p (at + k) = buf (at + k)" by (rule patch_outside)
  with k show "read_bytes (patch buf offset' p) at 8 ! k = read_bytes buf at 8 ! k"
    by (simp add: read_bytes_def)
qed

text \<open>
  Claim C8. A code buffer in unlinked form, every patched location holding its
  segment-relative placeholder, is linked and then unlinked: when linking succeeds,
  unlinking gives the buffer back, byte for byte. Linking succeeds when every symbolic
  address of the link data resolves.
\<close>

theorem link_unlink_roundtrip:
  "(unlinked_form placeholder linkData buf \<and>
    StaticallyLink symbolTarget base_addr buf linkData = (True, buf') \<longrightarrow>
      StaticallyUnlink placeholder base_addr buf' linkData = buf) \<and>
   ((\<forall>imm < length (symbolicLinks linkData). symbolTarget imm \<noteq> None) \<longrightarrow>
      fst (StaticallyLink symbolTarget base_addr buf linkData))"
proof (intro conjI impI)
  assume a: "unlinked_form placeholder linkData buf \<and>
    StaticallyLink symbolTarget base_addr buf linkData = (True, buf')"
  then have form: "list_all (\<lambda>(offset, p). read_bytes buf (unat offset) 8 = ptr_bytes p)
      (unlinked_sites placeholder linkData)"
    and link: "StaticallyLink symbolTarget base_addr buf linkData = (True, buf')"
    by (simp_all add: unlinked_form_def)
  have "\<forall>a. \<not> covered (map fst (unlinked_sites placeholder linkData)) a \<longrightarrow> buf' a = buf a"
    using StaticallyLink_outside [OF link] by blast
  from apply_patches_restore [OF form this]
  show "StaticallyUnlink placeholder base_addr buf' linkData = buf"
    by (simp add: StaticallyUnlink_patches)
next
  assume "\<forall>imm < length (symbolicLinks linkData). symbolTarget imm \<noteq> None"
  then have "\<forall>k < length (symbolicLinks linkData). symbolTarget (0 + k) \<noteq> None" by simp
  from link_symbolic_succeeds [OF this]
  show "fst (StaticallyLink symbolTarget base_addr buf linkData)"
    by (simp add: StaticallyLink_def)
qed

theorem link_unlink_roundtrip_witness:
  "unlinked_form example_placeholder example_linkData example_code \<and>
   StaticallyLink example_symbols 65536 example_code example_linkData =
     (True, patch (patch example_code 16 65600) 32 4660) \<and>
   StaticallyUnlink example_placeholder 65536 (patch (patch example_code 16 65600) 32 4660)
     example_linkData = example_code \<and>
   read_bytes (patch (patch example_code 16 65600) 32 4660) 16 8 = ptr_bytes 65600"
proof -
  have s16: "read_bytes example_code (unat (16 :: uint32_t)) 8 = ptr_bytes 64"
  proof -
    have "read_bytes example_code 16 8 = read_bytes (patch (\<lambda>a. 144) 16 64) 16 8"
      unfolding example_code_def by (rule read_bytes_patch_other) simp
    also have "\<dots> = ptr_bytes 64"
      using read_bytes_patch_same [of "\<lambda>a. 144" 16 64] by simp
    finally show ?thesis by simp
  qed
  have s32: "read_bytes example_code (unat (32 :: uint32_t)) 8 = ptr_bytes (- 1)"
    unfolding example_code_def by (rule read_bytes_patch_same)
  have form: "unlinked_form example_placeholder example_linkData example_code"
    using s16 s32
    by (simp add: unlinked_form_def unlinked_sites_def example_linkData_def
        example_placeholder_def)
  have link: "StaticallyLink example_symbols 65536 example_code example_linkData =
     (True, patch (patch example_code 16 65600) 32 4660)"
    by (simp add: StaticallyLink_def example_linkData_def example_symbols_def)
  have r: "read_bytes (patch (patch example_code 16 65600) 32 4660) 16 8 = ptr_bytes 65600"
  proof -
    have "read_bytes (patch (patch example_code 16 65600) 32 4660) 16 8 =
          read_bytes (patch example_code 16 65600) 16 8"
      by (rule read_bytes_patch_other) simp
    also have "\<dots> = ptr_bytes 65600"
      using read_bytes_patch_same [of example_code 16 65600] by simp
    finally show ?thesis .
  qed
  from link_unlink_roundtrip [of example_placeholder example_linkData example_code
      example_symbols 65536 "patch (patch example_code 16 65600) 32 4660"] form link r
  show ?thesis by blast
qed

end
